theory Spec2Isabelle
  imports Main "HOL-Library.Word" "HOL-Library.Signed_Division"
begin

unbundle bit_operations_syntax

section \<open>Machine types and run-time faults\<close>

text \<open>
  Go's \<open>byte\<close> and \<open>uint32\<close> are words; Go's \<open>int\<close> is a 64-bit two's complement
  integer, modelled as \<open>int\<close> with the wrap-around \<open>wrap64\<close> written out at the additions
  whose operands come from a request. A run-time panic of the Go code is the left
  injection of a sum.
\<close>

type_synonym byte = "8 word"
type_synonym uint32 = "32 word"

datatype panic = IndexOutOfRange | DivideByZero

definition wrap64 :: "int \<Rightarrow> int" where
  "wrap64 x = (x + 2 ^ 63) mod 2 ^ 64 - 2 ^ 63"

text \<open>Go's \<open>xs[i]\<close> on a slice: a fault outside \<open>0 \<le> i < len(xs)\<close>.\<close>

definition index :: "'a list \<Rightarrow> int \<Rightarrow> panic + 'a" where
  "index xs i = (if 0 \<le> i \<and> i < int (length xs) then Inr (xs ! nat i) else Inl IndexOutOfRange)"

text \<open>Sequencing of computations that may fault: the first fault aborts everything.\<close>

definition bindE :: "panic + 'a \<Rightarrow> ('a \<Rightarrow> panic + 'b) \<Rightarrow> panic + 'b" where
  "bindE m f = (case m of Inl e \<Rightarrow> Inl e | Inr x \<Rightarrow> f x)"

section \<open>Chord symbols (backend/handlers/api.go)\<close>

definition chromatic :: "string list" where
  "chromatic = [''C'', ''C#'', ''D'', ''D#'', ''E'', ''F'', ''F#'', ''G'', ''G#'', ''A'', ''A#'', ''B'']"

definition flatToSharp :: "string \<rightharpoonup> string" where
  "flatToSharp = map_of [(''Db'', ''C#''), (''Eb'', ''D#''), (''Gb'', ''F#''), (''Ab'', ''G#''), (''Bb'', ''A#'')]"

text \<open>
  Go's \<open>string(b)\<close> for a byte \<open>b\<close>: the UTF-8 encoding of the code point \<open>b\<close>, which is
  the byte itself below 128 and two bytes from 128 on.
\<close>

definition byteString :: "char \<Rightarrow> string" where
  "byteString c =
     (let n = (of_char c :: nat)
      in if n < 128 then [c] else [char_of (192 + n div 64), char_of (128 + n mod 64)])"

text \<open>The loop \<open>for i, n := range names { if n == root { return i } }; return -1\<close>.\<close>

fun findIndex :: "string list \<Rightarrow> string \<Rightarrow> int \<Rightarrow> int" where
  "findIndex [] root i = -1"
| "findIndex (n # ns) root i = (if n = root then i else findIndex ns root (i + 1))"

definition chordRootIndex :: "string \<Rightarrow> int" where
  "chordRootIndex chord =
     (if length chord = 0 then -1
      else
        let root = byteString (chord ! 0);
            root = (if length chord > 1 \<and> (chord ! 1 = CHR ''#'' \<or> chord ! 1 = CHR ''b'')
                    then root @ byteString (chord ! 1) else root);
            root = (case flatToSharp root of Some sharp \<Rightarrow> sharp | None \<Rightarrow> root)
        in findIndex chromatic root 0)"

definition chordSuffix :: "string \<Rightarrow> string" where
  "chordSuffix chord =
     (if length chord = 0 then ''''
      else if length chord > 1 \<and> (chord ! 1 = CHR ''#'' \<or> chord ! 1 = CHR ''b'')
      then drop 2 chord
      else drop 1 chord)"

text \<open>
  \<open>newIdx := ((idx+semitones)%12 + 12) % 12\<close>: Go's \<open>%\<close> truncates towards zero
  (\<open>smod\<close>), and the sum wraps at 64 bits. \<open>newIdx\<close> always lies in \<open>0..11\<close>
  (lemma \<open>newIdx_range\<close>), so the read of \<open>chromatic\<close> cannot fault.
\<close>

definition newIdx :: "int \<Rightarrow> int \<Rightarrow> int" where
  "newIdx idx semitones = ((wrap64 (idx + semitones)) smod 12 + 12) smod 12"

definition transposeChord :: "string \<Rightarrow> int \<Rightarrow> string" where
  "transposeChord chord semitones =
     (let idx = chordRootIndex chord
      in if idx = -1 then chord
         else chromatic ! nat (newIdx idx semitones) @ chordSuffix chord)"

text \<open>
  The loop of \<open>getTransposition\<close> runs over every entry of \<open>chromatic\<close> and keeps the
  last index that matches each key.
\<close>

definition getTranspositionStep :: "string \<Rightarrow> string \<Rightarrow> nat \<times> string \<Rightarrow> int \<times> int \<Rightarrow> int \<times> int" where
  "getTranspositionStep fromKey toKey = (\<lambda>(i, n) (from, to).
     (if n = fromKey then int i else from, if n = toKey then int i else to))"

definition getTransposition :: "string \<Rightarrow> string \<Rightarrow> int" where
  "getTransposition fromKey toKey =
     (let (from, to) = fold (getTranspositionStep fromKey toKey) (enumerate 0 chromatic) (-1, -1)
      in if from = -1 \<or> to = -1 then 0 else ((to - from) + 12) smod 12)"

text \<open>The five flat spellings that \<open>flatToSharp\<close> accepts as chord roots.\<close>

definition flatNames :: "string list" where
  "flatNames = [''Db'', ''Eb'', ''Gb'', ''Ab'', ''Bb'']"

section \<open>MIDI requests and pitch resolution (handlers/midi.go)\<close>

record MidiRequest =
  Chords :: "string list"
  Tempo :: int
  Pattern :: string
  Octave :: int
  Beats :: int
  Frets :: "string list list"
  OpenMidi :: "int list"

definition qualityIntervals :: "string \<rightharpoonup> int list" where
  "qualityIntervals = map_of
     [('''', [0, 4, 7]), (''m'', [0, 3, 7]), (''7'', [0, 4, 7, 10]), (''maj7'', [0, 4, 7, 11]),
      (''m7'', [0, 3, 7, 10]), (''dim'', [0, 3, 6]), (''aug'', [0, 4, 8]), (''sus2'', [0, 2, 7]),
      (''sus4'', [0, 5, 7]), (''6'', [0, 4, 7, 9]), (''m6'', [0, 3, 7, 9]),
      (''add9'', [0, 4, 7, 14]), (''madd9'', [0, 3, 7, 14])]"

text \<open>
  \<open>strconv.Atoi\<close>: an optional sign, then one or more decimal digits, and a value that
  fits 64 bits; anything else is an error (\<open>None\<close>).
\<close>

definition isDigit :: "char \<Rightarrow> bool" where
  "isDigit c = (48 \<le> (of_char c :: nat) \<and> (of_char c :: nat) \<le> 57)"

definition digitsValue :: "string \<Rightarrow> int" where
  "digitsValue ds = foldl (\<lambda>n c. n * 10 + (int (of_char c) - 48)) 0 ds"

definition Atoi :: "string \<Rightarrow> int option" where
  "Atoi s =
     (let neg = (s \<noteq> [] \<and> hd s = CHR ''-'');
          ds = (if s \<noteq> [] \<and> (hd s = CHR ''-'' \<or> hd s = CHR ''+'') then tl s else s)
      in if ds = [] \<or> \<not> list_all isDigit ds then None
         else let v = (if neg then - digitsValue ds else digitsValue ds)
              in if - (2 ^ 63) \<le> v \<and> v < 2 ^ 63 then Some v else None)"

text \<open>The first loop of \<open>fretsToMidi\<close>; \<open>i\<close> is the string index.\<close>

fun fretPitches :: "nat \<Rightarrow> string list \<Rightarrow> int list \<Rightarrow> int list" where
  "fretPitches i [] openMidi = []"
| "fretPitches i (fv # fs) openMidi =
     (if fv = ''x'' \<or> i \<ge> length openMidi then fretPitches (i + 1) fs openMidi
      else case Atoi fv of
             None \<Rightarrow> fretPitches (i + 1) fs openMidi
           | Some fretNum \<Rightarrow> wrap64 (openMidi ! i + fretNum) # fretPitches (i + 1) fs openMidi)"

text \<open>The second loop: the first occurrence of each pitch is kept and cast to a byte.\<close>

fun dedupBytes :: "int list \<Rightarrow> int list \<Rightarrow> byte list" where
  "dedupBytes seen [] = []"
| "dedupBytes seen (p # ps) =
     (if p \<in> set seen then dedupBytes seen ps
      else word_of_int p # dedupBytes (p # seen) ps)"

definition fretsToMidi :: "string list \<Rightarrow> int list \<Rightarrow> byte list" where
  "fretsToMidi frets openMidi = dedupBytes [] (sort (fretPitches 0 frets openMidi))"

definition chordToMidi :: "string \<Rightarrow> int \<Rightarrow> byte list" where
  "chordToMidi chord baseOctave =
     (let root = chordRootIndex chord;
          root = (if root = -1 then 0 else root);
          suffix = chordSuffix chord;
          intervals = (case qualityIntervals suffix of Some ivs \<Rightarrow> ivs | None \<Rightarrow> [0, 4, 7]);
          baseMidi = (word_of_int (12 * (baseOctave + 1)) :: byte) + word_of_int root
      in map (\<lambda>iv. baseMidi + word_of_int iv) intervals)"

section \<open>The SMF writer\<close>

definition ticksPerQuarter :: uint32 where
  "ticksPerQuarter = 480"

text \<open>The counting loop of \<open>varLen\<close>: \<open>for tmp := v; tmp > 0; tmp >>= 7 { n++ }\<close>.\<close>

function countGroups :: "uint32 \<Rightarrow> nat" where
  "countGroups tmp = (if tmp > 0 then Suc (countGroups (drop_bit 7 tmp)) else 0)"
  by pat_completeness auto
termination
proof (relation "measure unat")
  show "wf (measure unat)" by simp
next
  fix tmp :: uint32
  assume "0 < tmp"
  then have "0 < unat tmp" by (simp add: word_greater_zero_iff unat_gt_0)
  then have "unat tmp div 2 ^ 7 < unat tmp" by simp
  then show "(drop_bit 7 tmp, tmp) \<in> measure unat"
    by (simp add: drop_bit_eq_div unat_div)
qed

declare countGroups.simps [simp del]

text \<open>
  The filling loop of \<open>varLen\<close>, \<open>for i := n - 1; i >= 0; i--\<close>, on the four-byte
  array \<open>buf\<close>; the third argument is \<open>i + 1\<close>. A write past the array faults.
\<close>

fun varLenFill :: "uint32 \<Rightarrow> nat \<Rightarrow> nat \<Rightarrow> byte list \<Rightarrow> panic + byte list" where
  "varLenFill v n 0 buf = Inr buf"
| "varLenFill v n (Suc i) buf =
     (let b = (ucast (drop_bit (i * 7) v AND 0x7F) :: byte);
          b = (if i > 0 then b OR 0x80 else b)
      in if n - 1 - i < length buf then varLenFill v n i (buf[n - 1 - i := b])
         else Inl IndexOutOfRange)"

definition varLen :: "uint32 \<Rightarrow> panic + byte list" where
  "varLen v =
     (if v < 0x80 then Inr [ucast v]
      else let n = countGroups v
           in bindE (varLenFill v n n [0, 0, 0, 0])
                (\<lambda>buf. if n \<le> length buf then Inr (take n buf) else Inl IndexOutOfRange))"

definition noteOnEvent :: "uint32 \<Rightarrow> byte \<Rightarrow> byte \<Rightarrow> byte \<Rightarrow> panic + byte list" where
  "noteOnEvent delta ch note vel = bindE (varLen delta) (\<lambda>out. Inr (out @ [0x90 OR ch, note, vel]))"

definition noteOffEvent :: "uint32 \<Rightarrow> byte \<Rightarrow> byte \<Rightarrow> panic + byte list" where
  "noteOffEvent delta ch note = bindE (varLen delta) (\<lambda>out. Inr (out @ [0x80 OR ch, note, 0]))"

definition tempoEvent :: "int \<Rightarrow> panic + byte list" where
  "tempoEvent bpm =
     (if bpm = 0 then Inl DivideByZero
      else let uspq = (word_of_int (60000000 sdiv bpm) :: uint32)
           in Inr [0x00, 0xFF, 0x51, 0x03,
                   ucast (drop_bit 16 uspq), ucast (drop_bit 8 uspq), ucast uspq])"

definition endOfTrack :: "byte list" where
  "endOfTrack = [0x00, 0xFF, 0x2F, 0x00]"

section \<open>The rhythm patterns of \<open>buildTrack\<close>\<close>

text \<open>
  \<open>trk = append(trk, ...)\<close> in sequence: the byte strings are concatenated unless one of
  the computations faults. \<open>forE n body\<close> is a counting loop \<open>for i := 0; i < n; i++\<close>
  whose body appends to the track.
\<close>

definition appendE :: "panic + byte list \<Rightarrow> panic + byte list \<Rightarrow> panic + byte list" where
  "appendE a b = bindE a (\<lambda>x. bindE b (\<lambda>y. Inr (x @ y)))"

fun seqE :: "(panic + byte list) list \<Rightarrow> panic + byte list" where
  "seqE [] = Inr []"
| "seqE (m # ms) = appendE m (seqE ms)"

definition forE :: "nat \<Rightarrow> (nat \<Rightarrow> panic + byte list) \<Rightarrow> panic + byte list" where
  "forE n body = seqE (map body [0..<n])"

text \<open>
  The idioms that the cases of \<open>buildTrack\<close> repeat. In every case the note-on events
  carry delta 0 (the variable \<open>d\<close> is zero-initialised and only ever set to 0 there), and
  among the note-off events of a group the first carries the duration.
  \<^item> \<open>notesOn\<close>: \<open>for _, n := range notes { noteOnEvent(0, 0, n, vel) }\<close>
  \<^item> \<open>notesOff\<close>: \<open>for j, n := range notes { d := 0; if j == 0 { d = dur }; noteOffEvent(d, 0, n) }\<close>
  \<^item> \<open>strike\<close>: the two loops one after the other (a block chord)
  \<^item> \<open>pluck\<close>: \<open>noteOnEvent(0, 0, n, vel); noteOffEvent(dur, 0, n)\<close>
  \<^item> \<open>silence\<close>: \<open>noteOnEvent(0, 0, 0, 0); noteOffEvent(dur, 0, 0)\<close>, the code of a rest
\<close>

definition notesOn :: "byte \<Rightarrow> byte list \<Rightarrow> panic + byte list" where
  "notesOn vel notes = seqE (map (\<lambda>n. noteOnEvent 0 0 n vel) notes)"

definition notesOff :: "uint32 \<Rightarrow> byte list \<Rightarrow> panic + byte list" where
  "notesOff dur notes =
     seqE (map (\<lambda>(j, n). noteOffEvent (if j = 0 then dur else 0) 0 n) (enumerate 0 notes))"

definition strike :: "byte \<Rightarrow> uint32 \<Rightarrow> byte list \<Rightarrow> panic + byte list" where
  "strike vel dur notes = appendE (notesOn vel notes) (notesOff dur notes)"

definition pluck :: "byte \<Rightarrow> byte \<Rightarrow> uint32 \<Rightarrow> panic + byte list" where
  "pluck n vel dur = appendE (noteOnEvent 0 0 n vel) (noteOffEvent dur 0 n)"

definition silence :: "uint32 \<Rightarrow> panic + byte list" where
  "silence dur = appendE (noteOnEvent 0 0 0 0) (noteOffEvent dur 0 0)"

definition beatTicks :: uint32 where
  "beatTicks = ticksPerQuarter"

definition chordTicks :: "int \<Rightarrow> uint32" where
  "chordTicks beats = beatTicks * word_of_int beats"

definition eighthTicks :: uint32 where
  "eighthTicks = beatTicks div 2"

definition sixteenthTicks :: uint32 where
  "sixteenthTicks = beatTicks div 4"

definition tripletTicks :: uint32 where
  "tripletTicks = beatTicks div 3"

text \<open>\<open>int(chordTicks / unit)\<close>, the slot count of the patterns that follow \<open>req.Beats\<close>.\<close>

definition slotCount :: "int \<Rightarrow> uint32 \<Rightarrow> nat" where
  "slotCount beats unit = unat (chordTicks beats div unit)"

definition len :: "'a list \<Rightarrow> int" where
  "len xs = int (length xs)"

definition case_half :: "int \<Rightarrow> byte list \<Rightarrow> panic + byte list" where
  "case_half beats notes =
     (let halfTicks = chordTicks beats div 2 in forE 2 (\<lambda>rep. strike 100 halfTicks notes))"

definition case_quarter :: "int \<Rightarrow> byte list \<Rightarrow> panic + byte list" where
  "case_quarter beats notes = forE (nat beats) (\<lambda>beat. strike 100 beatTicks notes)"

definition case_arpeggio_up :: "int \<Rightarrow> byte list \<Rightarrow> panic + byte list" where
  "case_arpeggio_up beats notes =
     (if (of_nat (length notes) :: uint32) = 0 then Inl DivideByZero
      else let noteDur = chordTicks beats div of_nat (length notes)
           in seqE (map (\<lambda>n. pluck n 100 noteDur) notes))"

definition case_arpeggio_down :: "int \<Rightarrow> byte list \<Rightarrow> panic + byte list" where
  "case_arpeggio_down beats notes =
     (if (of_nat (length notes) :: uint32) = 0 then Inl DivideByZero
      else let noteDur = chordTicks beats div of_nat (length notes)
           in seqE (map (\<lambda>n. pluck n 100 noteDur) (rev notes)))"

definition case_boom_chick :: "int \<Rightarrow> byte list \<Rightarrow> panic + byte list" where
  "case_boom_chick beats notes =
     bindE (index notes 0) (\<lambda>n0.
       let bassNote = n0 - 12;
           upperNotes = drop 1 notes;
           upperNotes = (if length upperNotes = 0 then notes else upperNotes)
       in appendE (pluck bassNote 100 beatTicks)
            (forE (nat (beats - 1)) (\<lambda>beat. strike 90 beatTicks upperNotes)))"

definition popStrumPattern :: "(bool \<times> bool \<times> byte) list" where
  "popStrumPattern =
     [(True, False, 100), (True, False, 90), (True, True, 80), (True, False, 100),
      (True, True, 80), (False, False, 0), (False, False, 0), (False, False, 0)]"

definition case_pop_strum :: "int \<Rightarrow> byte list \<Rightarrow> panic + byte list" where
  "case_pop_strum beats notes =
     forE (slotCount beats eighthTicks) (\<lambda>ei.
       let (active, up, vel) = popStrumPattern ! (ei mod length popStrumPattern)
       in if active then strike vel eighthTicks (if up then rev notes else notes)
          else silence eighthTicks)"

definition case_travis_picking :: "int \<Rightarrow> byte list \<Rightarrow> panic + byte list" where
  "case_travis_picking beats notes =
     forE (slotCount beats eighthTicks) (\<lambda>ei.
       if ei mod 2 = 0
       then bindE (if (ei div 2) mod 2 = 0 then index notes 0
                   else if len notes > 1 then index notes 1 else index notes 0)
              (\<lambda>n. pluck n 100 eighthTicks)
       else bindE (index notes (len notes - 1)) (\<lambda>n. pluck n 80 eighthTicks))"

definition case_alberti_bass :: "int \<Rightarrow> byte list \<Rightarrow> panic + byte list" where
  "case_alberti_bass beats notes =
     forE (slotCount beats eighthTicks) (\<lambda>ei.
       bindE (if ei mod 4 = 0 then index notes 0
              else if ei mod 4 = 1 \<or> ei mod 4 = 3
              then (if len notes > 2 then index notes 2
                    else if len notes > 1 then index notes 1 else index notes 0)
              else (if len notes > 1 then index notes 1 else index notes 0))
         (\<lambda>n. pluck n 100 eighthTicks))"

definition case_triplet_arpeggio :: "int \<Rightarrow> byte list \<Rightarrow> panic + byte list" where
  "case_triplet_arpeggio beats notes =
     forE (slotCount beats tripletTicks) (\<lambda>ti.
       if len notes = 0 then Inl DivideByZero
       else bindE (index notes (int ti mod len notes)) (\<lambda>n. pluck n 100 tripletTicks))"

definition popStabsPattern :: "bool list" where
  "popStabsPattern = [True, False, True, True, False, True, False, False]"

definition case_pop_stabs :: "int \<Rightarrow> byte list \<Rightarrow> panic + byte list" where
  "case_pop_stabs beats notes =
     forE (slotCount beats eighthTicks) (\<lambda>ei.
       if popStabsPattern ! (ei mod length popStabsPattern) then strike 100 eighthTicks notes
       else silence eighthTicks)"

definition bossaChordPattern :: "bool list" where
  "bossaChordPattern = [True, False, True, False, False, True, False, True]"

definition case_bossa_nova :: "int \<Rightarrow> byte list \<Rightarrow> panic + byte list" where
  "case_bossa_nova beats notes =
     forE (slotCount beats eighthTicks) (\<lambda>ei.
       appendE
         (if ei mod 4 = 0
          then bindE (index notes 0) (\<lambda>n0. let bassNote = n0 - 12 in pluck bassNote 100 eighthTicks)
          else Inr [])
         (if bossaChordPattern ! (ei mod 8) then strike 90 eighthTicks notes
          else if ei mod 4 \<noteq> 0 then silence eighthTicks
          else Inr []))"

definition case_reggae_skank :: "int \<Rightarrow> byte list \<Rightarrow> panic + byte list" where
  "case_reggae_skank beats notes =
     forE (nat beats) (\<lambda>beat.
       if beat mod 2 = 1
       then appendE (strike 110 (beatTicks div 4) notes) (silence (3 * beatTicks div 4))
       else silence beatTicks)"

definition funkPattern :: "bool list" where
  "funkPattern = [True, False, False, True, False, False, True, False]"

definition case_funk_16th :: "int \<Rightarrow> byte list \<Rightarrow> panic + byte list" where
  "case_funk_16th beats notes =
     forE (slotCount beats sixteenthTicks) (\<lambda>si.
       if funkPattern ! (si mod 8) then strike 110 sixteenthTicks notes
       else silence sixteenthTicks)"

definition swingPattern :: "bool list" where
  "swingPattern = [True, False, False, True, False, False, False, False]"

definition case_jazz_swing :: "int \<Rightarrow> byte list \<Rightarrow> panic + byte list" where
  "case_jazz_swing beats notes =
     forE (slotCount beats eighthTicks) (\<lambda>ei.
       if swingPattern ! (ei mod 8) then strike 100 eighthTicks notes
       else silence eighthTicks)"

definition case_rock_8th :: "int \<Rightarrow> byte list \<Rightarrow> panic + byte list" where
  "case_rock_8th beats notes =
     forE (slotCount beats eighthTicks) (\<lambda>ei. strike 110 eighthTicks notes)"

definition case_let_it_be :: "int \<Rightarrow> byte list \<Rightarrow> panic + byte list" where
  "case_let_it_be beats notes =
     forE (nat beats) (\<lambda>beat.
       appendE (notesOn 95 notes)
      (appendE (if beat mod 2 = 0
                then bindE (index notes 0) (\<lambda>n0. noteOnEvent 0 0 (n0 - 12) 100)
                else Inr [])
      (appendE (bindE (index notes 0) (\<lambda>n0. noteOffEvent beatTicks 0 (n0 - 12)))
               (seqE (map (\<lambda>n. noteOffEvent 0 0 n) notes)))))"

definition standByMePattern :: "int list" where
  "standByMePattern = [1, 0, 1, 0, 2, 0, 2, 0]"

definition case_stand_by_me :: "int \<Rightarrow> byte list \<Rightarrow> panic + byte list" where
  "case_stand_by_me beats notes =
     bindE (index notes 0) (\<lambda>n0.
       let bassNote = n0 - 12
       in forE 8 (\<lambda>ei.
            let p = standByMePattern ! (ei mod length standByMePattern)
            in if p = 1 then pluck bassNote 110 eighthTicks
               else if p = 2 then strike 90 eighthTicks notes
               else silence eighthTicks))"

definition case_creep_arpeggio :: "int \<Rightarrow> byte list \<Rightarrow> panic + byte list" where
  "case_creep_arpeggio beats notes =
     forE 8 (\<lambda>ei.
       if len notes = 0 then Inl DivideByZero
       else bindE (index notes (int ei mod len notes)) (\<lambda>n. pluck n 100 eighthTicks))"

definition twistPattern :: "(bool \<times> bool) list" where
  "twistPattern =
     [(True, False), (False, False), (True, False), (True, True),
      (False, False), (True, True), (True, False), (True, True)]"

definition case_twist_and_shout :: "int \<Rightarrow> byte list \<Rightarrow> panic + byte list" where
  "case_twist_and_shout beats notes =
     forE 8 (\<lambda>ei.
       let (active, up) = twistPattern ! (ei mod 8)
       in if active then strike 105 eighthTicks (if up then rev notes else notes)
          else silence eighthTicks)"

definition case_blues_shuffle :: "int \<Rightarrow> byte list \<Rightarrow> panic + byte list" where
  "case_blues_shuffle beats notes =
     (let longTicks = (beatTicks * 2) div 3;
          shortTicks = beatTicks div 3
      in forE (nat beats) (\<lambda>beat.
           appendE (strike 110 longTicks notes) (strike 90 shortTicks notes)))"

definition case_sweet_home_alabama :: "int \<Rightarrow> byte list \<Rightarrow> panic + byte list" where
  "case_sweet_home_alabama beats notes =
     bindE (index notes 0) (\<lambda>bassNote.
       forE 8 (\<lambda>ei.
         if ei mod 8 = 0 \<or> ei mod 8 = 1 \<or> ei mod 8 = 3 then pluck bassNote 100 eighthTicks
         else bindE (index notes (len notes - 1)) (\<lambda>high.
              bindE (if ei > 4 then index notes (len notes - 2) else Inr high) (\<lambda>n.
                pluck n 90 eighthTicks))))"

definition stairwayIdxs :: "int \<Rightarrow> int list" where
  "stairwayIdxs l = [0, 1, 2, l - 1, l - 2, 1, 2, 0]"

definition case_stairway_arpeggio :: "int \<Rightarrow> byte list \<Rightarrow> panic + byte list" where
  "case_stairway_arpeggio beats notes =
     forE 8 (\<lambda>ei.
       bindE (index notes (stairwayIdxs (len notes) ! (ei mod 8))) (\<lambda>n. pluck n 100 eighthTicks))"

definition hotelIdxs :: "int list" where
  "hotelIdxs = [0, 2, 1, 3]"

definition case_hotel_california :: "int \<Rightarrow> byte list \<Rightarrow> panic + byte list" where
  "case_hotel_california beats notes =
     forE 8 (\<lambda>ei.
       let idx = hotelIdxs ! (ei mod 4);
           idx = (if idx \<ge> len notes then len notes - 1 else idx)
       in bindE (index notes idx) (\<lambda>n. pluck n 100 eighthTicks))"

definition wonderwallPattern :: "bool list" where
  "wonderwallPattern =
     [True, False, True, False, True, True, True, False,
      True, False, True, True, True, True, True, True]"

definition case_wonderwall_strum :: "int \<Rightarrow> byte list \<Rightarrow> panic + byte list" where
  "case_wonderwall_strum beats notes =
     forE 16 (\<lambda>si.
       if wonderwallPattern ! si then strike 100 sixteenthTicks notes
       else silence sixteenthTicks)"

definition case_blackbird_pick :: "int \<Rightarrow> byte list \<Rightarrow> panic + byte list" where
  "case_blackbird_pick beats notes =
     forE 8 (\<lambda>ei.
       if ei mod 2 = 0
       then bindE (index notes 0) (\<lambda>low.
            bindE (index notes (len notes - 1)) (\<lambda>high.
              seqE [noteOnEvent 0 0 low 110, noteOnEvent 0 0 high 100,
                    noteOffEvent eighthTicks 0 low, noteOffEvent 0 0 high]))
       else if len notes = 0 then Inl DivideByZero
       else bindE (index notes (1 mod len notes)) (\<lambda>n. pluck n 80 eighthTicks))"

definition case_palm_mute_8th :: "int \<Rightarrow> byte list \<Rightarrow> panic + byte list" where
  "case_palm_mute_8th beats notes =
     forE 8 (\<lambda>ei.
       appendE (strike 100 (eighthTicks div 2) notes) (silence (eighthTicks div 2)))"

definition case_off_beat_8th :: "int \<Rightarrow> byte list \<Rightarrow> panic + byte list" where
  "case_off_beat_8th beats notes =
     forE 8 (\<lambda>ei.
       if ei mod 2 = 1 then strike 100 eighthTicks notes else silence eighthTicks)"

definition case_country_alt_bass :: "int \<Rightarrow> byte list \<Rightarrow> panic + byte list" where
  "case_country_alt_bass beats notes =
     bindE (index notes 0) (\<lambda>bassRoot.
     bindE (if len notes > 2 then index notes 2 else Inr (bassRoot + 7)) (\<lambda>bassFifth.
       let bassFifth = (if bassFifth > 60 then bassFifth - 12 else bassFifth)
       in forE 4 (\<lambda>beat.
            if beat = 0 then pluck (bassRoot - 12) 110 beatTicks
            else if beat = 2 then pluck (bassFifth - 12) 110 beatTicks
            else strike 90 beatTicks notes)))"

definition pimaIdxs :: "int \<Rightarrow> int list" where
  "pimaIdxs l = [0, 1, 2, l - 1, 2, 1, 0, 1]"

definition case_pima_arpeggio :: "int \<Rightarrow> byte list \<Rightarrow> panic + byte list" where
  "case_pima_arpeggio beats notes =
     forE 8 (\<lambda>ei.
       let idx = pimaIdxs (len notes) ! (ei mod 8);
           idx = (if idx \<ge> len notes then len notes - 1 else idx)
       in bindE (index notes idx) (\<lambda>n. pluck n 100 eighthTicks))"

definition case_four_on_the_floor :: "int \<Rightarrow> byte list \<Rightarrow> panic + byte list" where
  "case_four_on_the_floor beats notes =
     forE 4 (\<lambda>beat. strike (if beat mod 2 = 0 then 110 else 90) beatTicks notes)"

definition case_default :: "int \<Rightarrow> byte list \<Rightarrow> panic + byte list" where
  "case_default beats notes = strike 100 (chordTicks beats) notes"

text \<open>The \<open>switch req.Pattern\<close> of \<open>buildTrack\<close>, as a table from name to case.\<close>

definition patternTable :: "(string \<times> (int \<Rightarrow> byte list \<Rightarrow> panic + byte list)) list" where
  "patternTable =
     [(''half'', case_half), (''quarter'', case_quarter),
      (''arpeggio-up'', case_arpeggio_up), (''arpeggio-down'', case_arpeggio_down),
      (''boom-chick'', case_boom_chick), (''pop-strum'', case_pop_strum),
      (''travis-picking'', case_travis_picking), (''alberti-bass'', case_alberti_bass),
      (''triplet-arpeggio'', case_triplet_arpeggio), (''pop-stabs'', case_pop_stabs),
      (''bossa-nova'', case_bossa_nova), (''reggae-skank'', case_reggae_skank),
      (''funk-16th'', case_funk_16th), (''jazz-swing'', case_jazz_swing),
      (''rock-8th'', case_rock_8th), (''let-it-be'', case_let_it_be),
      (''stand-by-me'', case_stand_by_me), (''creep-arpeggio'', case_creep_arpeggio),
      (''twist-and-shout'', case_twist_and_shout), (''blues-shuffle'', case_blues_shuffle),
      (''sweet-home-alabama'', case_sweet_home_alabama),
      (''stairway-arpeggio'', case_stairway_arpeggio),
      (''hotel-california'', case_hotel_california),
      (''wonderwall-strum'', case_wonderwall_strum),
      (''blackbird-pick'', case_blackbird_pick), (''palm-mute-8th'', case_palm_mute_8th),
      (''off-beat-8th'', case_off_beat_8th), (''country-alt-bass'', case_country_alt_bass),
      (''pima-arpeggio'', case_pima_arpeggio), (''four-on-the-floor'', case_four_on_the_floor)]"

definition patternBytes :: "string \<Rightarrow> int \<Rightarrow> byte list \<Rightarrow> panic + byte list" where
  "patternBytes pattern beats notes =
     (case map_of patternTable pattern of
        Some c \<Rightarrow> c beats notes
      | None \<Rightarrow> case_default beats notes)"

text \<open>The note set of chord \<open>ci\<close>: fret positions when they resolve to a note, else the chord name.\<close>

definition chordNotes :: "MidiRequest \<Rightarrow> nat \<Rightarrow> string \<Rightarrow> byte list" where
  "chordNotes req ci chordName =
     (let notes = (if ci < length (Frets req) \<and> length (OpenMidi req) > 0
                   then fretsToMidi (Frets req ! ci) (OpenMidi req) else [])
      in if length notes = 0 then chordToMidi chordName (Octave req) else notes)"

definition buildTrack :: "MidiRequest \<Rightarrow> panic + byte list" where
  "buildTrack req =
     bindE (tempoEvent (Tempo req)) (\<lambda>tempo.
     bindE (seqE (map (\<lambda>(ci, chordName).
                    patternBytes (Pattern req) (Beats req) (chordNotes req ci chordName))
                  (enumerate 0 (Chords req)))) (\<lambda>body.
       Inr (tempo @ body @ endOfTrack)))"

text \<open>\<open>binary.Write\<close> of a \<open>uint32\<close> and of a \<open>uint16\<close>, big-endian.\<close>

definition be32 :: "uint32 \<Rightarrow> byte list" where
  "be32 w = [ucast (drop_bit 24 w), ucast (drop_bit 16 w), ucast (drop_bit 8 w), ucast w]"

definition be16 :: "16 word \<Rightarrow> byte list" where
  "be16 w = [ucast (drop_bit 8 w), ucast w]"

definition asBytes :: "string \<Rightarrow> byte list" where
  "asBytes s = map (\<lambda>c. of_nat (of_char c)) s"

definition buildMidi :: "MidiRequest \<Rightarrow> panic + byte list" where
  "buildMidi req =
     bindE (buildTrack req) (\<lambda>trackData.
       Inr (asBytes ''MThd'' @ be32 6 @ be16 0 @ be16 1 @ be16 (ucast ticksPerQuarter)
            @ asBytes ''MTrk'' @ be32 (of_nat (length trackData)) @ trackData))"

text \<open>
  \<open>GenerateMidi\<close>: the defaults applied to a bound request, then \<open>buildMidi\<close>.
\<close>

definition applyDefaults :: "MidiRequest \<Rightarrow> MidiRequest" where
  "applyDefaults req =
     req\<lparr>Tempo := (if Tempo req \<le> 0 then 120 else Tempo req),
         Octave := (if Octave req < 2 \<or> Octave req > 6 then 4 else Octave req),
         Beats := (if Beats req \<le> 0 then 4 else Beats req),
         Pattern := (if Pattern req = '''' then ''quarter'' else Pattern req)\<rparr>"

definition GenerateMidi :: "MidiRequest \<Rightarrow> panic + byte list" where
  "GenerateMidi req = buildMidi (applyDefaults req)"

section \<open>Reading a track back\<close>

text \<open>
  The properties of the emitted bytes are stated on the events that a Standard MIDI File
  reader sees in them. \<open>vlqRead\<close> is the standard reader of a variable-length quantity:
  seven data bits per byte, most significant group first, the top bit set on every byte
  but the last. \<open>readEvent\<close> reads a delta time and then a note-on (\<open>0x9n\<close>), a note-off
  (\<open>0x8n\<close>) or a meta event (\<open>0xFF\<close>, type, length, data). The first argument of
  \<open>readEvents\<close> bounds the number of events, and \<open>readTrack\<close> gives it the number of bytes,
  which always suffices (lemma \<open>readEvents_fuel\<close>).
\<close>

fun vlqAcc :: "uint32 \<Rightarrow> byte list \<Rightarrow> (uint32 \<times> byte list) option" where
  "vlqAcc acc [] = None"
| "vlqAcc acc (b # bs) =
     (let acc' = push_bit 7 acc OR ucast (b AND 0x7F)
      in if b AND 0x80 = 0 then Some (acc', bs) else vlqAcc acc' bs)"

definition vlqRead :: "byte list \<Rightarrow> (uint32 \<times> byte list) option" where
  "vlqRead bs = vlqAcc 0 bs"

datatype event =
    NoteOn uint32 byte byte byte
  | NoteOff uint32 byte byte byte
  | Meta uint32 byte "byte list"

definition readEvent :: "byte list \<Rightarrow> (event \<times> byte list) option" where
  "readEvent bs =
     (case vlqRead bs of
        None \<Rightarrow> None
      | Some (delta, rest) \<Rightarrow>
          (case rest of
             [] \<Rightarrow> None
           | status # rest1 \<Rightarrow>
               if status = 0xFF then
                 (case rest1 of
                    [] \<Rightarrow> None
                  | ty # rest2 \<Rightarrow>
                      (case vlqRead rest2 of
                         None \<Rightarrow> None
                       | Some (n, rest3) \<Rightarrow>
                           if length rest3 < unat n then None
                           else Some (Meta delta ty (take (unat n) rest3), drop (unat n) rest3)))
               else if status AND 0xF0 = 0x90 then
                 (case rest1 of
                    note # vel # rest2 \<Rightarrow> Some (NoteOn delta (status AND 0x0F) note vel, rest2)
                  | _ \<Rightarrow> None)
               else if status AND 0xF0 = 0x80 then
                 (case rest1 of
                    note # vel # rest2 \<Rightarrow> Some (NoteOff delta (status AND 0x0F) note vel, rest2)
                  | _ \<Rightarrow> None)
               else None))"

fun readEvents :: "nat \<Rightarrow> byte list \<Rightarrow> event list option" where
  "readEvents fuel [] = Some []"
| "readEvents 0 (b # bs) = None"
| "readEvents (Suc fuel) (b # bs) =
     (case readEvent (b # bs) of
        None \<Rightarrow> None
      | Some (e, rest) \<Rightarrow> map_option (Cons e) (readEvents fuel rest))"

definition readTrack :: "byte list \<Rightarrow> event list option" where
  "readTrack bs = readEvents (length bs) bs"

text \<open>The pitch of a note event, and the ticks that a list of events spans.\<close>

fun notePitch :: "event \<Rightarrow> byte option" where
  "notePitch (NoteOn d ch p v) = Some p"
| "notePitch (NoteOff d ch p v) = Some p"
| "notePitch (Meta d ty bs) = None"

fun deltaOf :: "event \<Rightarrow> uint32" where
  "deltaOf (NoteOn d ch p v) = d"
| "deltaOf (NoteOff d ch p v) = d"
| "deltaOf (Meta d ty bs) = d"

definition ticksOf :: "event list \<Rightarrow> nat" where
  "ticksOf evs = sum_list (map (\<lambda>e. unat (deltaOf e)) evs)"

fun isNoteOn :: "byte \<Rightarrow> byte \<Rightarrow> event \<Rightarrow> bool" where
  "isNoteOn ch p (NoteOn d ch' p' v) = (ch' = ch \<and> p' = p)"
| "isNoteOn ch p e = False"

fun isNoteOff :: "byte \<Rightarrow> byte \<Rightarrow> event \<Rightarrow> bool" where
  "isNoteOff ch p (NoteOff d ch' p' v) = (ch' = ch \<and> p' = p)"
| "isNoteOff ch p e = False"

text \<open>The part of a file after the 14-byte header chunk and the 8-byte track chunk header.\<close>

definition trackOf :: "byte list \<Rightarrow> byte list" where
  "trackOf file = drop 22 file"

text \<open>The requests used as concrete inputs below.\<close>

definition plainRequest :: "string list \<Rightarrow> string \<Rightarrow> int \<Rightarrow> MidiRequest" where
  "plainRequest chords pattern beats =
     \<lparr>Chords = chords, Tempo = 120, Pattern = pattern, Octave = 4, Beats = beats,
      Frets = [], OpenMidi = []\<rparr>"

definition fretRequest :: "string \<Rightarrow> string list \<Rightarrow> int list \<Rightarrow> MidiRequest" where
  "fretRequest pattern frets openMidi =
     \<lparr>Chords = [''C''], Tempo = 120, Pattern = pattern, Octave = 4, Beats = 4,
      Frets = [frets], OpenMidi = openMidi\<rparr>"

definition eventsOf :: "panic + byte list \<Rightarrow> event list option" where
  "eventsOf r = (case r of Inl e \<Rightarrow> None | Inr file \<Rightarrow> readTrack (trackOf file))"

fun isOn :: "event \<Rightarrow> bool" where
  "isOn (NoteOn d ch p v) = True"
| "isOn e = False"

definition isOK :: "panic + 'a \<Rightarrow> bool" where
  "isOK r = (case r of Inl e \<Rightarrow> False | Inr x \<Rightarrow> True)"

text \<open>
  The bytes of a variable-length quantity of \<open>n\<close> groups, as the filling loop of
  \<open>varLen\<close> computes them: group \<open>i\<close> holds bits \<open>7i\<close> to \<open>7i + 6\<close>, and every group but
  group 0 has the top bit set.
\<close>

definition group7 :: "uint32 \<Rightarrow> nat \<Rightarrow> byte" where
  "group7 v i = (let b = ucast (drop_bit (i * 7) v AND 0x7F) in if i > 0 then b OR 0x80 else b)"

definition vlqBytes :: "uint32 \<Rightarrow> nat \<Rightarrow> byte list" where
  "vlqBytes v n = map (group7 v) (rev [0..<n])"

text \<open>
  The catalog of pattern names, as the comment on \<open>MidiRequest.Pattern\<close> lists them, and the
  value of a big-endian byte string, for reading the chunk headers of a file.
\<close>

definition catalog :: "string list" where
  "catalog =
     [''whole'', ''half'', ''quarter'', ''arpeggio-up'', ''arpeggio-down'', ''boom-chick'',
      ''pop-strum'', ''travis-picking'', ''alberti-bass'', ''triplet-arpeggio'', ''pop-stabs'',
      ''bossa-nova'', ''reggae-skank'', ''funk-16th'', ''jazz-swing'', ''rock-8th'',
      ''let-it-be'', ''stand-by-me'', ''creep-arpeggio'', ''twist-and-shout'',
      ''blues-shuffle'', ''sweet-home-alabama'', ''stairway-arpeggio'', ''hotel-california'',
      ''wonderwall-strum'', ''blackbird-pick'', ''palm-mute-8th'', ''off-beat-8th'',
      ''country-alt-bass'', ''pima-arpeggio'', ''four-on-the-floor'']"

definition ube :: "byte list \<Rightarrow> nat" where
  "ube bs = foldl (\<lambda>acc b. acc * 256 + unat b) 0 bs"

section \<open>Events of the idioms and slot tables\<close>

text \<open>
  The events that the five idioms of the patterns are read back as: a note-on per note at
  delta 0, a note-off per note with the duration on the first, and for a rest the pair
  that \<open>silence\<close> writes, a note-on and a note-off for pitch 0 with velocity 0.
\<close>

definition onEvents :: "byte \<Rightarrow> byte list \<Rightarrow> event list" where
  "onEvents vel notes = map (\<lambda>n. NoteOn 0 0 n vel) notes"

definition offEvents :: "uint32 \<Rightarrow> byte list \<Rightarrow> event list" where
  "offEvents dur notes =
     map (\<lambda>(j, n). NoteOff (if j = 0 then dur else 0) 0 n 0) (enumerate 0 notes)"

definition strikeEvents :: "byte \<Rightarrow> uint32 \<Rightarrow> byte list \<Rightarrow> event list" where
  "strikeEvents vel dur notes = onEvents vel notes @ offEvents dur notes"

definition pluckEvents :: "byte \<Rightarrow> byte \<Rightarrow> uint32 \<Rightarrow> event list" where
  "pluckEvents n vel dur = [NoteOn 0 0 n vel, NoteOff dur 0 n 0]"

definition restEvents :: "uint32 \<Rightarrow> event list" where
  "restEvents dur = [NoteOn 0 0 0 0, NoteOff dur 0 0 0]"

text \<open>
  Slot tables in the vocabulary of the specification: a slot has a note-selection rule, a
  velocity and a duration in ticks. A pattern is a cyclic table of slot groups, one group
  per loop index, applied over a number of indices. The tables below are those of the
  eleven cases of \<open>buildTrack\<close> that have rests, with the number of loop indices of each.
\<close>

datatype rule = AllNotes | AllReversed | RootOctaveDown | Silence

datatype slot = Slot rule byte uint32

fun selected :: "rule \<Rightarrow> byte list \<Rightarrow> byte list" where
  "selected AllNotes notes = notes"
| "selected AllReversed notes = rev notes"
| "selected RootOctaveDown notes = [hd notes - 12]"
| "selected Silence notes = []"

fun slotEvents :: "byte list \<Rightarrow> slot \<Rightarrow> event list" where
  "slotEvents notes (Slot r vel dur) =
     (if r = Silence then restEvents dur else strikeEvents vel dur (selected r notes))"

definition cycle :: "'a list list \<Rightarrow> nat \<Rightarrow> 'a list" where
  "cycle table n = concat (map (\<lambda>i. table ! (i mod length table)) [0..<n])"

definition popStrumSlots :: "slot list list" where
  "popStrumSlots =
     [[Slot AllNotes 100 240], [Slot AllNotes 90 240], [Slot AllReversed 80 240], [Slot AllNotes 100 240],
      [Slot AllReversed 80 240], [Slot Silence 0 240], [Slot Silence 0 240],
      [Slot Silence 0 240]]"

definition popStabsSlots :: "slot list list" where
  "popStabsSlots =
     [[Slot AllNotes 100 240], [Slot Silence 0 240], [Slot AllNotes 100 240], [Slot AllNotes 100 240],
      [Slot Silence 0 240], [Slot AllNotes 100 240], [Slot Silence 0 240], [Slot Silence 0 240]]"

definition bossaNovaSlots :: "slot list list" where
  "bossaNovaSlots =
     [[Slot RootOctaveDown 100 240, Slot AllNotes 90 240], [Slot Silence 0 240],
      [Slot AllNotes 90 240], [Slot Silence 0 240],
      [Slot RootOctaveDown 100 240], [Slot AllNotes 90 240],
      [Slot Silence 0 240], [Slot AllNotes 90 240]]"

definition reggaeSkankSlots :: "slot list list" where
  "reggaeSkankSlots = [[Slot Silence 0 480], [Slot AllNotes 110 120, Slot Silence 0 360]]"

definition funk16thSlots :: "slot list list" where
  "funk16thSlots =
     [[Slot AllNotes 110 120], [Slot Silence 0 120], [Slot Silence 0 120], [Slot AllNotes 110 120],
      [Slot Silence 0 120], [Slot Silence 0 120], [Slot AllNotes 110 120], [Slot Silence 0 120]]"

definition jazzSwingSlots :: "slot list list" where
  "jazzSwingSlots =
     [[Slot AllNotes 100 240], [Slot Silence 0 240], [Slot Silence 0 240], [Slot AllNotes 100 240],
      [Slot Silence 0 240], [Slot Silence 0 240], [Slot Silence 0 240], [Slot Silence 0 240]]"

definition standByMeSlots :: "slot list list" where
  "standByMeSlots =
     [[Slot RootOctaveDown 110 240], [Slot Silence 0 240],
      [Slot RootOctaveDown 110 240], [Slot Silence 0 240],
      [Slot AllNotes 90 240], [Slot Silence 0 240], [Slot AllNotes 90 240], [Slot Silence 0 240]]"

definition twistAndShoutSlots :: "slot list list" where
  "twistAndShoutSlots =
     [[Slot AllNotes 105 240], [Slot Silence 0 240], [Slot AllNotes 105 240], [Slot AllReversed 105 240],
      [Slot Silence 0 240], [Slot AllReversed 105 240], [Slot AllNotes 105 240],
      [Slot AllReversed 105 240]]"

definition wonderwallSlots :: "slot list list" where
  "wonderwallSlots =
     [[Slot AllNotes 100 120], [Slot Silence 0 120], [Slot AllNotes 100 120], [Slot Silence 0 120],
      [Slot AllNotes 100 120], [Slot AllNotes 100 120], [Slot AllNotes 100 120], [Slot Silence 0 120],
      [Slot AllNotes 100 120], [Slot Silence 0 120], [Slot AllNotes 100 120], [Slot AllNotes 100 120],
      [Slot AllNotes 100 120], [Slot AllNotes 100 120], [Slot AllNotes 100 120], [Slot AllNotes 100 120]]"

definition palmMuteSlots :: "slot list list" where
  "palmMuteSlots = [[Slot AllNotes 100 120, Slot Silence 0 120]]"

definition offBeatSlots :: "slot list list" where
  "offBeatSlots = [[Slot Silence 0 240], [Slot AllNotes 100 240]]"

definition restPatterns :: "(string \<times> slot list list \<times> (int \<Rightarrow> nat)) list" where
  "restPatterns =
     [(''pop-strum'', popStrumSlots, \<lambda>beats. slotCount beats eighthTicks),
      (''pop-stabs'', popStabsSlots, \<lambda>beats. slotCount beats eighthTicks),
      (''bossa-nova'', bossaNovaSlots, \<lambda>beats. slotCount beats eighthTicks),
      (''reggae-skank'', reggaeSkankSlots, \<lambda>beats. nat beats),
      (''funk-16th'', funk16thSlots, \<lambda>beats. slotCount beats sixteenthTicks),
      (''jazz-swing'', jazzSwingSlots, \<lambda>beats. slotCount beats eighthTicks),
      (''stand-by-me'', standByMeSlots, \<lambda>beats. 8),
      (''twist-and-shout'', twistAndShoutSlots, \<lambda>beats. 8),
      (''wonderwall-strum'', wonderwallSlots, \<lambda>beats. 16),
      (''palm-mute-8th'', palmMuteSlots, \<lambda>beats. 8),
      (''off-beat-8th'', offBeatSlots, \<lambda>beats. 8)]"

text \<open>The three data bytes of the tempo event, and the four cases with a lowered root.\<close>

definition tempoData :: "int \<Rightarrow> byte list" where
  "tempoData bpm =
     (let uspq = (word_of_int (60000000 sdiv bpm) :: uint32)
      in [ucast (drop_bit 16 uspq), ucast (drop_bit 8 uspq), ucast uspq])"

definition bassPatterns :: "string list" where
  "bassPatterns = [''boom-chick'', ''bossa-nova'', ''stand-by-me'', ''country-alt-bass'']"

text \<open>
  \<open>emits m evs\<close>: the computation \<open>m\<close> returns bytes, and a reader positioned at these bytes
  reads exactly the events \<open>evs\<close> and continues with whatever follows.
\<close>

definition emits :: "panic + byte list \<Rightarrow> event list \<Rightarrow> bool" where
  "emits m evs \<longleftrightarrow>
     (\<exists>bs. m = Inr bs \<and> (\<forall>rest. readTrack (bs @ rest) = map_option (\<lambda>t. evs @ t) (readTrack rest)))"

text \<open>
  \<open>balanced evs\<close>: for every pitch, the events hold as many note-ons as note-offs on
  channel 0, the only channel that \<open>buildTrack\<close> writes. \<open>paired m\<close>: if the computation
  \<open>m\<close> returns, its bytes read as a balanced list of events.
\<close>

definition balanced :: "event list \<Rightarrow> bool" where
  "balanced evs \<longleftrightarrow>
     (\<forall>p. length (filter (isNoteOn 0 p) evs) = length (filter (isNoteOff 0 p) evs))"

definition paired :: "panic + byte list \<Rightarrow> bool" where
  "paired m \<longleftrightarrow> (case m of Inl e \<Rightarrow> True | Inr bs \<Rightarrow> (\<exists>evs. emits m evs \<and> balanced evs))"

text \<open>The characters that \<open>chordRootIndex\<close> takes as the second character of a root.\<close>

definition accidental :: "char \<Rightarrow> bool" where
  "accidental c = (c = CHR ''#'' \<or> c = CHR ''b'')"

section \<open>Index ranges\<close>

lemma upt_consts:
  "[0..<2] = [0, 1]" "[0..<3] = [0, 1, 2]" "[0..<4] = [0, 1, 2, 3]"
  "[0..<8] = [0, 1, 2, 3, 4, 5, 6, 7]"
  "[0..<12] = [0, 1, 2, 3, 4, 5, 6, 7, 8, 9, 10, 11]"
  "[0..<16] = [0, 1, 2, 3, 4, 5, 6, 7, 8, 9, 10, 11, 12, 13, 14, 15]"
  by (simp_all add: upt_rec)

section \<open>Key distance\<close>

lemma getTransposition_fold_from:
  "fromKey \<notin> snd ` set xs \<Longrightarrow>
   fst (fold (getTranspositionStep fromKey toKey) xs acc) = fst acc"
  by (induction xs arbitrary: acc) (auto simp: getTranspositionStep_def split: prod.splits)

lemma getTransposition_fold_to:
  "toKey \<notin> snd ` set xs \<Longrightarrow>
   snd (fold (getTranspositionStep fromKey toKey) xs acc) = snd acc"
  by (induction xs arbitrary: acc) (auto simp: getTranspositionStep_def split: prod.splits)

lemma snd_set_enumerate: "snd ` set (enumerate n xs) = set xs"
  by (metis list.set_map map_snd_enumerate)

lemma getTransposition_unknown_from:
  assumes "fromKey \<notin> set chromatic"
  shows "getTransposition fromKey toKey = 0"
proof -
  obtain f t where ft:
    "fold (getTranspositionStep fromKey toKey) (enumerate 0 chromatic) (-1, -1) = (f, t)"
    by (cases "fold (getTranspositionStep fromKey toKey) (enumerate 0 chromatic) (-1, -1)")
  have "fromKey \<notin> snd ` set (enumerate 0 chromatic)"
    using assms by (simp only: snd_set_enumerate not_False_eq_True)
  from getTransposition_fold_from [OF this, of toKey "(-1, -1)"] ft have "f = -1"
    by simp
  with ft show ?thesis
    by (simp add: getTransposition_def)
qed

lemma getTransposition_unknown_to:
  assumes "toKey \<notin> set chromatic"
  shows "getTransposition fromKey toKey = 0"
proof -
  obtain f t where ft:
    "fold (getTranspositionStep fromKey toKey) (enumerate 0 chromatic) (-1, -1) = (f, t)"
    by (cases "fold (getTranspositionStep fromKey toKey) (enumerate 0 chromatic) (-1, -1)")
  have "toKey \<notin> snd ` set (enumerate 0 chromatic)"
    using assms by (simp only: snd_set_enumerate not_False_eq_True)
  from getTransposition_fold_to [OF this, of fromKey "(-1, -1)"] ft have "t = -1"
    by simp
  with ft show ?thesis
    by (simp add: getTransposition_def)
qed

lemma flatNames_not_chromatic: "k \<in> set flatNames \<Longrightarrow> k \<notin> set chromatic"
  by (auto simp: flatNames_def chromatic_def)

lemma flatNames_root: "k \<in> set flatNames \<Longrightarrow> chordRootIndex k \<noteq> -1"
  by (auto simp: flatNames_def chordRootIndex_def byteString_def flatToSharp_def chromatic_def)

text \<open>
  C9. \<open>getTransposition\<close> compares both key names with the twelve sharp-form names of
  \<open>chromatic\<close> only and never consults \<open>flatToSharp\<close>: each of the five flat spellings
  is accepted as a chord root by \<open>chordRootIndex\<close>, is no entry of \<open>chromatic\<close>, and
  makes \<open>getTransposition\<close> return 0 whether it is the source or the target key.
\<close>

theorem getTransposition_flat_key_is_unknown:
  assumes "k \<in> set flatNames"
  shows "chordRootIndex k \<noteq> -1 \<and> k \<notin> set chromatic
         \<and> getTransposition k other = 0 \<and> getTransposition other k = 0"
  using assms flatNames_root [OF assms] flatNames_not_chromatic [OF assms]
  by (simp add: getTransposition_unknown_from getTransposition_unknown_to)

theorem getTransposition_flat_key_is_unknown_witness:
  "''Bb'' \<in> set flatNames \<and> chordRootIndex ''Bb'' \<noteq> -1 \<and> ''Bb'' \<notin> set chromatic
   \<and> getTransposition ''Bb'' ''C'' = 0 \<and> getTransposition ''C'' ''Bb'' = 0"
proof -
  have h: "''Bb'' \<in> set flatNames" by (simp add: flatNames_def)
  from getTransposition_flat_key_is_unknown [OF h, of "''C''"] h show ?thesis by simp
qed

section \<open>Transposition\<close>

lemma smod12_norm: "((a::int) smod 12 + 12) smod 12 = a mod 12"
proof -
  have r: "a smod 12 \<in> {- 11 .. 11}"
    using smod_int_range [of 12 a] by simp
  then have "0 \<le> a smod 12 + 12" by simp
  then have "(a smod 12 + 12) smod 12 = (a smod 12 + 12) mod 12"
    by (simp add: smod_mod_positive)
  also have "\<dots> = (a smod 12) mod 12" by simp
  also have "\<dots> = a mod 12"
    by (simp add: signed_modulo_int_eq_modulo_int mod_diff_right_eq [symmetric])
  finally show ?thesis .
qed

lemma wrap64_id: "- (2 ^ 63) \<le> x \<Longrightarrow> x < 2 ^ 63 \<Longrightarrow> wrap64 x = x"
  by (simp add: wrap64_def)

lemma newIdx_mod: "- (2 ^ 63) \<le> idx + n \<Longrightarrow> idx + n < 2 ^ 63 \<Longrightarrow> newIdx idx n = (idx + n) mod 12"
  by (simp add: newIdx_def wrap64_id smod12_norm)

lemma newIdx_range: "0 \<le> newIdx idx n \<and> newIdx idx n < 12"
  by (simp add: newIdx_def smod12_norm)

lemma findIndex_range: "findIndex ns root i = -1 \<or> (i \<le> findIndex ns root i \<and> findIndex ns root i < i + int (length ns))"
  by (induction ns root i rule: findIndex.induct) auto

lemma chordRootIndex_cases:
  "chordRootIndex x = -1 \<or> (\<exists>r. chordRootIndex x = findIndex chromatic r 0)"
  unfolding chordRootIndex_def Let_def by (cases "length x = 0") auto

lemma length_chromatic: "length chromatic = 12"
  by (simp add: chromatic_def)

lemma chordRootIndex_range:
  assumes "chordRootIndex x \<noteq> -1"
  shows "0 \<le> chordRootIndex x \<and> chordRootIndex x < 12"
proof -
  from chordRootIndex_cases [of x] assms obtain r
    where r: "chordRootIndex x = findIndex chromatic r 0" by auto
  from findIndex_range [of chromatic r 0] assms r show ?thesis
    by (simp add: length_chromatic)
qed


lemma findIndex_nth_eq:
  "findIndex ns r i = j \<Longrightarrow> j \<noteq> -1 \<Longrightarrow> 0 \<le> i \<Longrightarrow> i \<le> j \<and> ns ! nat (j - i) = r"
proof (induction ns r i rule: findIndex.induct)
  case (1 root i)
  then show ?case by simp
next
  case (2 n ns root i)
  show ?case
  proof (cases "n = root")
    case True
    with 2 show ?thesis by simp
  next
    case False
    with 2 have "i + 1 \<le> j \<and> ns ! nat (j - (i + 1)) = root" by simp
    moreover from this have "nat (j - i) = Suc (nat (j - (i + 1)))" by arith
    ultimately show ?thesis by simp
  qed
qed

lemma findIndex_chromatic_nth:
  assumes "k < 12"
  shows "findIndex chromatic (chromatic ! k) 0 = int k"
proof -
  from assms have "k \<in> set [0..<12]" by simp
  then show ?thesis
    unfolding upt_consts set_simps
    by (elim insertE emptyE) (simp_all add: chromatic_def)
qed

text \<open>A chord name that is a sharp-form root followed by a suffix without a leading accidental parses back into the two.\<close>

lemma parse_sharp_name:
  assumes "k < 12" and "s = [] \<or> \<not> accidental (hd s)"
  shows "chordRootIndex (chromatic ! k @ s) = int k \<and> chordSuffix (chromatic ! k @ s) = s"
proof -
  from assms(1) have "k \<in> set [0..<12]" by simp
  then have k: "k \<in> {0, 1, 2, 3, 4, 5, 6, 7, 8, 9, 10, 11}"
    unfolding upt_consts set_simps .
  show ?thesis
  proof (cases s)
    case Nil
    with k show ?thesis
      by (elim insertE emptyE)
         (simp_all add: chromatic_def chordRootIndex_def chordSuffix_def byteString_def
            flatToSharp_def)
  next
    case (Cons c cs)
    with assms(2) have c: "c \<noteq> CHR ''#''" "c \<noteq> CHR ''b''" by (simp_all add: accidental_def)
    from k Cons c show ?thesis
      by (elim insertE emptyE)
         (simp_all add: chromatic_def chordRootIndex_def chordSuffix_def byteString_def
            flatToSharp_def)
  qed
qed


lemma transposeChord_resolved:
  "chordRootIndex x \<noteq> -1 \<Longrightarrow>
   transposeChord x n = chromatic ! nat (newIdx (chordRootIndex x) n) @ chordSuffix x"
  by (simp add: transposeChord_def Let_def)

lemma byteString_high: 
  assumes "128 \<le> (of_char c :: nat)"
  shows "byteString c \<noteq> [] \<and> 128 \<le> (of_char (hd (byteString c)) :: nat)"
proof -
  have "(of_char c :: nat) < 256" by simp
  then have "(of_char c :: nat) div 64 \<le> 3" by arith
  then have "(192 + (of_char c :: nat) div 64) mod 256 = 192 + (of_char c :: nat) div 64"
    by simp
  with assms show ?thesis
    by (simp add: byteString_def Let_def)
qed

lemma high_root_unknown:
  assumes "r \<noteq> []" and "128 \<le> (of_char (hd r) :: nat)"
  shows "flatToSharp r = None \<and> findIndex chromatic r 0 = -1"
proof -
  from assms obtain c cs where r: "r = c # cs" and c: "128 \<le> (of_char c :: nat)"
    by (cases r) auto
  from c have "c \<noteq> CHR ''A''" "c \<noteq> CHR ''B''" "c \<noteq> CHR ''C''" "c \<noteq> CHR ''D''"
    "c \<noteq> CHR ''E''" "c \<noteq> CHR ''F''" "c \<noteq> CHR ''G''"
    by auto
  with r show ?thesis
    by (simp add: flatToSharp_def chromatic_def)
qed

lemma byteString_low: "(of_char c :: nat) < 128 \<Longrightarrow> byteString c = [c]"
  by (simp add: byteString_def)

lemma flatToSharp_Some: "flatToSharp r = Some t \<Longrightarrow> r \<in> set flatNames"
  by (auto simp: flatToSharp_def flatNames_def split: if_splits)

lemma sharp_spelled_fixed:
  assumes res: "chordRootIndex x \<noteq> -1" and nf: "take 2 x \<notin> set flatNames"
  shows "chromatic ! nat (chordRootIndex x) @ chordSuffix x = x"
proof -
  from res have ne: "x \<noteq> []" by (auto simp: chordRootIndex_def)
  define acc where "acc \<longleftrightarrow> length x > 1 \<and> (x ! 1 = CHR ''#'' \<or> x ! 1 = CHR ''b'')"
  define root where "root = (if acc then byteString (x ! 0) @ byteString (x ! 1) else byteString (x ! 0))"
  have idx: "chordRootIndex x = findIndex chromatic (case flatToSharp root of Some sharp \<Rightarrow> sharp | None \<Rightarrow> root) 0"
    using ne by (auto simp: chordRootIndex_def root_def acc_def Let_def split: option.splits)
  have low: "(of_char (x ! 0) :: nat) < 128"
  proof (rule ccontr)
    assume "\<not> (of_char (x ! 0) :: nat) < 128"
    then have "128 \<le> (of_char (x ! 0) :: nat)" by simp
    from byteString_high [OF this] have "root \<noteq> [] \<and> 128 \<le> (of_char (hd root) :: nat)"
      by (simp add: root_def)
    from high_root_unknown [of root] this idx res show False by simp
  qed
  have root_eq: "root = (if acc then take 2 x else take 1 x)"
  proof (cases acc)
    case True
    then have "byteString (x ! 1) = [x ! 1]" by (auto simp: acc_def byteString_def)
    moreover from True have "take 2 x = [x ! 0, x ! 1]"
      by (cases x; cases "tl x") (auto simp: acc_def)
    ultimately show ?thesis using True low by (simp add: root_def byteString_low)
  next
    case False
    moreover from ne have "take 1 x = [x ! 0]" by (cases x) auto
    ultimately show ?thesis using low by (simp add: root_def byteString_low)
  qed
  have none: "flatToSharp root = None"
  proof (cases "flatToSharp root")
    case (Some t)
    from flatToSharp_Some [OF this] have "root \<in> set flatNames" .
    moreover from this have "length root = 2" by (auto simp: flatNames_def)
    ultimately have "take 2 x \<in> set flatNames"
      using root_eq by (cases acc) auto
    with nf show ?thesis by simp
  qed simp
  with idx have "chordRootIndex x = findIndex chromatic root 0" by simp
  from findIndex_nth_eq [OF this [symmetric] res] have "chromatic ! nat (chordRootIndex x) = root"
    by simp
  moreover have "chordSuffix x = (if acc then drop 2 x else drop 1 x)"
    using ne by (simp add: chordSuffix_def acc_def)
  ultimately show ?thesis using root_eq by simp
qed

text \<open>
  C3. Transposing a chord symbol with a resolvable root by \<open>n\<close> semitones and back gives
  the symbol again, for \<open>n\<close> from -24 to 24. As the code is written this holds up to the
  spelling of the root: \<open>transposeChord\<close> writes every root from the sharp-form table
  \<open>chromatic\<close>, so the round trip yields the symbol respelled with a sharp root, which is
  what transposing by 0 yields, and it is the symbol itself when the symbol does not begin
  with one of the five flat names. The statement is for symbols whose suffix does not
  begin with \<open>#\<close> or \<open>b\<close>: a natural root written in front of such a suffix is read
  back as a different root.
\<close>

theorem transpose_round_trip_sharp_spelling:
  assumes res: "chordRootIndex x \<noteq> -1" and lo: "-24 \<le> n" and hi: "n \<le> 24"
    and suf: "chordSuffix x = [] \<or> \<not> accidental (hd (chordSuffix x))"
  shows "transposeChord (transposeChord x n) (-n) = transposeChord x 0
         \<and> (take 2 x \<notin> set flatNames \<longrightarrow> transposeChord x 0 = x)"
proof -
  define i where "i = chordRootIndex x"
  define k where "k = nat (newIdx i n)"
  from chordRootIndex_range [OF res] have i: "0 \<le> i" "i < 12" by (simp_all add: i_def)
  from newIdx_range [of i n] have k: "k < 12" "int k = newIdx i n" unfolding k_def by linarith+
  have kmod: "int k = (i + n) mod 12"
    using i lo hi k(2) by (simp add: newIdx_mod)
  have step1: "transposeChord x n = chromatic ! k @ chordSuffix x"
    using res by (simp add: transposeChord_resolved i_def k_def)
  from parse_sharp_name [OF k(1) suf]
  have parsed: "chordRootIndex (chromatic ! k @ chordSuffix x) = int k"
    "chordSuffix (chromatic ! k @ chordSuffix x) = chordSuffix x" by simp_all
  have "newIdx (int k) (- n) = (int k - n) mod 12"
    using k(1) lo hi by (simp add: newIdx_mod)
  also have "\<dots> = i mod 12"
    by (simp add: kmod mod_diff_left_eq)
  also have "\<dots> = i" using i by simp
  finally have ret: "newIdx (int k) (- n) = i" .
  have "newIdx i 0 = i" using i by (simp add: newIdx_mod)
  then have zero: "transposeChord x 0 = chromatic ! nat i @ chordSuffix x"
    using res by (simp add: transposeChord_resolved i_def)
  have "transposeChord (chromatic ! k @ chordSuffix x) (- n) = chromatic ! nat i @ chordSuffix x"
    using parsed ret by (simp add: transposeChord_def Let_def)
  with step1 zero have "transposeChord (transposeChord x n) (-n) = transposeChord x 0" by simp
  moreover have "take 2 x \<notin> set flatNames \<longrightarrow> transposeChord x 0 = x"
    using sharp_spelled_fixed [OF res] zero by (simp add: i_def)
  ultimately show ?thesis by simp
qed

theorem transpose_round_trip_sharp_spelling_witness:
  "chordRootIndex ''F#m7'' \<noteq> -1 \<and> (-24 :: int) \<le> 6 \<and> (6 :: int) \<le> 24
   \<and> \<not> accidental (hd (chordSuffix ''F#m7'')) \<and> take 2 ''F#m7'' \<notin> set flatNames
   \<and> transposeChord ''F#m7'' 6 = ''Cm7''
   \<and> transposeChord (transposeChord ''F#m7'' 6) (-6) = ''F#m7''"
proof -
  have h1: "chordRootIndex ''F#m7'' \<noteq> -1" by code_simp
  have h2: "chordSuffix ''F#m7'' = [] \<or> \<not> accidental (hd (chordSuffix ''F#m7''))" by code_simp
  have h3: "take 2 ''F#m7'' \<notin> set flatNames" by code_simp
  have h4: "transposeChord ''F#m7'' 6 = ''Cm7''" by code_simp
  have h5: "\<not> accidental (hd (chordSuffix ''F#m7''))" by code_simp
  from transpose_round_trip_sharp_spelling [OF h1 _ _ h2, of 6] h3
  have "transposeChord (transposeChord ''F#m7'' 6) (-6) = ''F#m7''" by simp
  with h1 h3 h4 h5 show ?thesis by simp
qed

text \<open>The claim as stated fails for a flat-spelled root: \<open>Bb\<close> comes back as \<open>A#\<close>.\<close>

theorem transpose_round_trip_flat_counterexample:
  "chordRootIndex ''Bb'' = 10 \<and> transposeChord ''Bb'' 2 = ''C''
   \<and> transposeChord (transposeChord ''Bb'' 2) (-2) = ''A#''
   \<and> transposeChord (transposeChord ''Bb'' 2) (-2) \<noteq> ''Bb''"
  by code_simp

text \<open>A suffix that begins with an accidental: \<open>C#b5\<close> a semitone down is written \<open>Cb5\<close>, whose root does not resolve.\<close>

lemma transpose_round_trip_accidental_suffix:
  "chordRootIndex ''C#b5'' = 1 \<and> chordSuffix ''C#b5'' = ''b5''
   \<and> transposeChord ''C#b5'' (-1) = ''Cb5''
   \<and> transposeChord (transposeChord ''C#b5'' (-1)) 1 = ''Cb5''"
  by code_simp

section \<open>Variable-length quantities\<close>

lemma countGroups_eq:
  "unat v < 128 ^ n \<Longrightarrow> (n = 0 \<or> 128 ^ (n - 1) \<le> unat v) \<Longrightarrow> countGroups v = n"
proof (induction n arbitrary: v)
  case 0
  then have "v = 0" by (simp add: unat_eq_0)
  then show ?case by (simp add: countGroups.simps [of 0])
next
  case (Suc n)
  have d: "unat (drop_bit 7 v) = unat v div 128"
    by (simp add: drop_bit_eq_div unat_div)
  from Suc.prems have pos: "0 < v"
    by (auto simp: word_greater_zero_iff unat_eq_0 intro: ccontr)
  from Suc.prems have "unat v div 128 < 128 ^ n"
    by (simp add: less_mult_imp_div_less mult.commute)
  moreover have "n = 0 \<or> 128 ^ (n - 1) \<le> unat v div 128"
  proof (cases n)
    case (Suc m)
    with Suc.prems have "128 * 128 ^ m \<le> unat v" by simp
    then have "128 ^ m \<le> unat v div 128" by (simp add: less_eq_div_iff_mult_less_eq mult.commute)
    with Suc show ?thesis by simp
  qed simp
  ultimately have "countGroups (drop_bit 7 v) = n"
    using Suc.IH [of "drop_bit 7 v"] d by simp
  with pos show ?case by (simp add: countGroups.simps [of v])
qed


lemma varLenFill_2: "varLenFill v 2 2 [0, 0, 0, 0] = Inr [group7 v 1, group7 v 0, 0, 0]"
  by (simp add: eval_nat_numeral group7_def Let_def)

lemma varLenFill_3: "varLenFill v 3 3 [0, 0, 0, 0] = Inr [group7 v 2, group7 v 1, group7 v 0, 0]"
  by (simp add: eval_nat_numeral group7_def Let_def)

lemma varLenFill_4:
  "varLenFill v 4 4 [0, 0, 0, 0] = Inr [group7 v 3, group7 v 2, group7 v 1, group7 v 0]"
  by (simp add: eval_nat_numeral group7_def Let_def)

lemma varLenFill_5: "varLenFill v 5 5 [0, 0, 0, 0] = Inl IndexOutOfRange"
  by (simp add: eval_nat_numeral Let_def)

lemma mask7: "(0x7F :: 'a::len word) = mask 7"
  by (simp add: mask_eq_exp_minus_1)

lemma low7_id: "(v :: uint32) < 0x80 \<Longrightarrow> v AND 0x7F = v"
  using less_mask_eq [of v 7] by (simp add: mask7)

lemma small_group: "v < 0x80 \<Longrightarrow> group7 v 0 = ucast v"
  by (simp add: group7_def low7_id)

lemma bit80: "bit (0x80 :: 'a::len word) n \<longleftrightarrow> n = 7 \<and> 7 < LENGTH('a)"
proof -
  have "(0x80 :: 'a word) = push_bit 7 1" by simp
  then show ?thesis by (simp only: bit_simps) auto
qed

lemma bit128_int: "bit (128 :: int) n \<longleftrightarrow> n = 7"
proof -
  have "(128 :: int) = 2 ^ 7" by simp
  then show ?thesis by (simp only: bit_exp_iff) auto
qed

lemma group7_data: "(ucast (group7 v i AND 0x7F) :: uint32) = drop_bit (i * 7) v AND 0x7F"
  by (rule bit_word_eqI) (auto simp: group7_def Let_def mask7 bit_simps bit80 bit128_int)

lemma group7_last: "group7 v 0 AND 0x80 = 0"
  by (rule bit_word_eqI) (auto simp: group7_def Let_def mask7 bit_simps bit80 bit128_int)

lemma group7_cont: "0 < i \<Longrightarrow> group7 v i AND 0x80 \<noteq> 0"
proof -
  assume "0 < i"
  then have "bit (group7 v i AND 0x80) 7"
    by (simp add: group7_def Let_def bit_simps bit80)
  then show ?thesis by (metis bit_0_eq bot_apply bot_bool_def)
qed

lemma reassemble: "push_bit 7 (drop_bit 7 w) OR (w AND 0x7F) = (w :: uint32)"
  by (rule bit_word_eqI) (auto simp: mask7 bit_simps)

lemma vlqAcc_group:
  "vlqAcc (drop_bit (Suc i * 7) v) (group7 v i # bs) =
     (if i = 0 then Some (v, bs) else vlqAcc (drop_bit (i * 7) v) bs)"
proof -
  have "push_bit 7 (drop_bit (Suc i * 7) v) OR (drop_bit (i * 7) v AND 0x7F) = drop_bit (i * 7) v"
    using reassemble [of "drop_bit (i * 7) v"] by (simp add: add.commute)
  then show ?thesis
    using group7_cont [of i v] group7_last [of v]
    by (cases "i = 0") (simp_all add: group7_data Let_def)
qed

lemma vlqAcc_vlqBytes:
  "0 < n \<Longrightarrow> vlqAcc (drop_bit (n * 7) v) (vlqBytes v n @ rest) = Some (v, rest)"
proof (induction n)
  case 0
  then show ?case by simp
next
  case (Suc n)
  have "vlqBytes v (Suc n) = group7 v n # vlqBytes v n"
    by (simp add: vlqBytes_def)
  then show ?case
    using Suc vlqAcc_group [of n v "vlqBytes v n @ rest"]
    by (cases "n = 0") (simp_all add: vlqBytes_def)
qed

lemma high_bits_zero: "unat (v :: uint32) < 128 ^ n \<Longrightarrow> drop_bit (n * 7) v = 0"
proof -
  assume "unat v < 128 ^ n"
  moreover have "(128 :: nat) ^ n = 2 ^ (n * 7)"
  proof -
    have "(128 :: nat) = 2 ^ 7" by simp
    then show ?thesis by (simp only: power_mult [symmetric] mult.commute)
  qed
  ultimately have "unat v div 2 ^ (n * 7) = 0" by simp
  then have "unat (drop_bit (n * 7) v) = 0"
    by (simp only: unat_drop_bit_eq) (simp add: drop_bit_eq_div)
  then show ?thesis by (simp add: unat_eq_0)
qed

lemma vlqRead_vlqBytes:
  "0 < n \<Longrightarrow> unat v < 128 ^ n \<Longrightarrow> vlqRead (vlqBytes v n @ rest) = Some (v, rest)"
  using vlqAcc_vlqBytes [of n v rest] by (simp add: vlqRead_def high_bits_zero)


lemma varLen_small: "v < 0x80 \<Longrightarrow> varLen v = Inr (vlqBytes v 1)"
  by (simp add: varLen_def vlqBytes_def small_group)

lemma vlqBytes_2: "vlqBytes v 2 = [group7 v 1, group7 v 0]"
  by (simp add: vlqBytes_def eval_nat_numeral)

lemma vlqBytes_3: "vlqBytes v 3 = [group7 v 2, group7 v 1, group7 v 0]"
  by (simp add: vlqBytes_def eval_nat_numeral)

lemma vlqBytes_4: "vlqBytes v 4 = [group7 v 3, group7 v 2, group7 v 1, group7 v 0]"
  by (simp add: vlqBytes_def eval_nat_numeral)

lemma varLen_2:
  assumes "128 \<le> unat v" and "unat v < 16384"
  shows "varLen v = Inr (vlqBytes v 2)"
proof -
  from assms have "countGroups v = 2" by (intro countGroups_eq) simp_all
  moreover from assms(1) have "\<not> v < 0x80" by (simp add: word_less_nat_alt)
  ultimately show ?thesis
    by (simp add: varLen_def bindE_def varLenFill_2 vlqBytes_2)
qed

lemma varLen_3:
  assumes "16384 \<le> unat v" and "unat v < 2097152"
  shows "varLen v = Inr (vlqBytes v 3)"
proof -
  from assms have "countGroups v = 3" by (intro countGroups_eq) simp_all
  moreover from assms(1) have "\<not> v < 0x80" by (simp add: word_less_nat_alt)
  ultimately show ?thesis
    by (simp add: varLen_def bindE_def varLenFill_3 vlqBytes_3)
qed

lemma varLen_4:
  assumes "2097152 \<le> unat v" and "unat v < 268435456"
  shows "varLen v = Inr (vlqBytes v 4)"
proof -
  from assms have "countGroups v = 4" by (intro countGroups_eq) simp_all
  moreover from assms(1) have "\<not> v < 0x80" by (simp add: word_less_nat_alt)
  ultimately show ?thesis
    by (simp add: varLen_def bindE_def varLenFill_4 vlqBytes_4)
qed

lemma varLen_5:
  assumes "268435456 \<le> unat v"
  shows "varLen v = Inl IndexOutOfRange"
proof -
  have "unat v < 2 ^ 32" using unsigned_less [of v] by simp
  with assms have "countGroups v = 5" by (intro countGroups_eq) simp_all
  moreover from assms(1) have "\<not> v < 0x80" by (simp add: word_less_nat_alt)
  ultimately show ?thesis
    by (simp add: varLen_def bindE_def varLenFill_5)
qed

lemma varLen_vlqBytes:
  assumes "v < 0x10000000"
  shows "\<exists>n. 0 < n \<and> n \<le> 4 \<and> unat v < 128 ^ n \<and> varLen v = Inr (vlqBytes v n)"
proof -
  from assms have b: "unat v < 268435456" by (simp add: word_less_nat_alt)
  consider "unat v < 128" | "128 \<le> unat v" "unat v < 16384"
    | "16384 \<le> unat v" "unat v < 2097152" | "2097152 \<le> unat v"
    by linarith
  then show ?thesis
  proof cases
    case 1
    then have "v < 0x80" by (simp add: word_less_nat_alt)
    from varLen_small [OF this] 1 show ?thesis by (intro exI [of _ 1]) simp
  next
    case 2
    from varLen_2 [OF 2] 2 show ?thesis by (intro exI [of _ 2]) simp
  next
    case 3
    from varLen_3 [OF 3] 3 show ?thesis by (intro exI [of _ 3]) simp
  next
    case 4
    from varLen_4 [OF 4 b] b show ?thesis by (intro exI [of _ 4]) simp
  qed
qed

lemma varLen_read_back:
  assumes "v < 0x10000000"
  shows "\<exists>bs. varLen v = Inr bs \<and> (\<forall>rest. vlqRead (bs @ rest) = Some (v, rest))"
proof -
  from varLen_vlqBytes [OF assms] obtain n
    where n: "0 < n" "n \<le> 4" "unat v < 128 ^ n" "varLen v = Inr (vlqBytes v n)" by blast
  from vlqRead_vlqBytes [OF n(1) n(3)] n(4) show ?thesis by simp
qed

text \<open>
  C8. Decoding the bytes that \<open>varLen\<close> produces with a standard variable-length
  quantity reader gives the value back, at the boundary values 0, 127, 128, 16383 and
  16384 and in general. As the code is written, in general means up to \<open>0x0FFFFFFF\<close>,
  the largest value of four groups: the buffer of \<open>varLen\<close> has four bytes. Below that
  bound \<open>varLen\<close> returns at most four bytes, and the reader consumes exactly these and
  returns the value.
\<close>

theorem varLen_round_trip:
  assumes "v < 0x10000000"
  shows "\<exists>bs. varLen v = Inr bs \<and> vlqRead bs = Some (v, []) \<and> length bs \<le> 4"
proof -
  from varLen_vlqBytes [OF assms] obtain n
    where n: "0 < n" "n \<le> 4" "unat v < 128 ^ n" "varLen v = Inr (vlqBytes v n)" by blast
  from vlqRead_vlqBytes [OF n(1) n(3), of "[]"] n show ?thesis
    by (simp add: vlqBytes_def)
qed

theorem varLen_round_trip_witness:
  "(16384 :: uint32) < 0x10000000 \<and> varLen 16384 = Inr [0x81, 0x80, 0x00]
   \<and> vlqRead [0x81, 0x80, 0x00] = Some (16384, [])"
proof -
  have h: "(16384 :: uint32) < 0x10000000" by simp
  have e: "varLen 16384 = Inr [0x81, 0x80, 0x00]" by code_simp
  from varLen_round_trip [OF h] e h show ?thesis by simp
qed

text \<open>From \<open>0x10000000\<close> on there are five groups and the fifth write is past the buffer.\<close>

theorem varLen_faults_counterexample:
  "varLen 0x10000000 = Inl IndexOutOfRange"
  by code_simp

text \<open>The five boundary values of the claim.\<close>

lemma varLen_boundary_values:
  "varLen 0 = Inr [0x00] \<and> vlqRead [0x00] = Some (0, [])
   \<and> varLen 127 = Inr [0x7F] \<and> vlqRead [0x7F] = Some (127, [])
   \<and> varLen 128 = Inr [0x81, 0x00] \<and> vlqRead [0x81, 0x00] = Some (128, [])
   \<and> varLen 16383 = Inr [0xFF, 0x7F] \<and> vlqRead [0xFF, 0x7F] = Some (16383, [])
   \<and> varLen 16384 = Inr [0x81, 0x80, 0x00] \<and> vlqRead [0x81, 0x80, 0x00] = Some (16384, [])"
  by code_simp

section \<open>The file chunks\<close>

lemma varLen_consts:
  "varLen 0 = Inr [0x00]" "varLen 120 = Inr [0x78]" "varLen 160 = Inr [0x81, 0x20]"
  "varLen 240 = Inr [0x81, 0x70]" "varLen 320 = Inr [0x82, 0x40]"
  "varLen 360 = Inr [0x82, 0x68]" "varLen 480 = Inr [0x83, 0x60]"
  "varLen 640 = Inr [0x85, 0x00]" "varLen 960 = Inr [0x87, 0x40]" "varLen 1920 = Inr [0x8F, 0x00]"
  by code_simp+

lemma ticks_consts:
  "beatTicks = 480" "eighthTicks = 240" "sixteenthTicks = 120" "tripletTicks = 160"
  "chordTicks 4 = 1920" "slotCount 4 240 = 8" "slotCount 4 120 = 16" "slotCount 4 160 = 12"
  by code_simp+

lemmas emit_simps = forE_def appendE_def bindE_def noteOnEvent_def noteOffEvent_def
  notesOn_def notesOff_def strike_def pluck_def silence_def varLen_consts ticks_consts
  index_def len_def Let_def enumerate_eq_zip upt_consts

lemmas table_simps = popStrumPattern_def popStabsPattern_def bossaChordPattern_def funkPattern_def
  swingPattern_def standByMePattern_def twistPattern_def stairwayIdxs_def hotelIdxs_def
  wonderwallPattern_def pimaIdxs_def

lemmas case_defs = case_default_def
  case_half_def case_quarter_def case_arpeggio_up_def case_arpeggio_down_def
  case_boom_chick_def case_pop_strum_def case_travis_picking_def case_alberti_bass_def
  case_triplet_arpeggio_def case_pop_stabs_def case_bossa_nova_def case_reggae_skank_def
  case_funk_16th_def case_jazz_swing_def case_rock_8th_def case_let_it_be_def
  case_stand_by_me_def case_creep_arpeggio_def case_twist_and_shout_def case_blues_shuffle_def
  case_sweet_home_alabama_def case_stairway_arpeggio_def case_hotel_california_def
  case_wonderwall_strum_def case_blackbird_pick_def case_palm_mute_8th_def
  case_off_beat_8th_def case_country_alt_bass_def case_pima_arpeggio_def
  case_four_on_the_floor_def

lemma patternBytes_table:
  "patternBytes ''whole'' = case_default"
  "patternBytes ''half'' = case_half"
  "patternBytes ''quarter'' = case_quarter"
  "patternBytes ''arpeggio-up'' = case_arpeggio_up"
  "patternBytes ''arpeggio-down'' = case_arpeggio_down"
  "patternBytes ''boom-chick'' = case_boom_chick"
  "patternBytes ''pop-strum'' = case_pop_strum"
  "patternBytes ''travis-picking'' = case_travis_picking"
  "patternBytes ''alberti-bass'' = case_alberti_bass"
  "patternBytes ''triplet-arpeggio'' = case_triplet_arpeggio"
  "patternBytes ''pop-stabs'' = case_pop_stabs"
  "patternBytes ''bossa-nova'' = case_bossa_nova"
  "patternBytes ''reggae-skank'' = case_reggae_skank"
  "patternBytes ''funk-16th'' = case_funk_16th"
  "patternBytes ''jazz-swing'' = case_jazz_swing"
  "patternBytes ''rock-8th'' = case_rock_8th"
  "patternBytes ''let-it-be'' = case_let_it_be"
  "patternBytes ''stand-by-me'' = case_stand_by_me"
  "patternBytes ''creep-arpeggio'' = case_creep_arpeggio"
  "patternBytes ''twist-and-shout'' = case_twist_and_shout"
  "patternBytes ''blues-shuffle'' = case_blues_shuffle"
  "patternBytes ''sweet-home-alabama'' = case_sweet_home_alabama"
  "patternBytes ''stairway-arpeggio'' = case_stairway_arpeggio"
  "patternBytes ''hotel-california'' = case_hotel_california"
  "patternBytes ''wonderwall-strum'' = case_wonderwall_strum"
  "patternBytes ''blackbird-pick'' = case_blackbird_pick"
  "patternBytes ''palm-mute-8th'' = case_palm_mute_8th"
  "patternBytes ''off-beat-8th'' = case_off_beat_8th"
  "patternBytes ''country-alt-bass'' = case_country_alt_bass"
  "patternBytes ''pima-arpeggio'' = case_pima_arpeggio"
  "patternBytes ''four-on-the-floor'' = case_four_on_the_floor"
  by (simp_all add: patternBytes_def patternTable_def fun_eq_iff)

lemma cases_return_3:
  "\<exists>bs. case_default 4 [a, b, c] = Inr bs \<and> length bs \<le> 1000"
  "\<exists>bs. case_half 4 [a, b, c] = Inr bs \<and> length bs \<le> 1000"
  "\<exists>bs. case_quarter 4 [a, b, c] = Inr bs \<and> length bs \<le> 1000"
  "\<exists>bs. case_arpeggio_up 4 [a, b, c] = Inr bs \<and> length bs \<le> 1000"
  "\<exists>bs. case_arpeggio_down 4 [a, b, c] = Inr bs \<and> length bs \<le> 1000"
  "\<exists>bs. case_boom_chick 4 [a, b, c] = Inr bs \<and> length bs \<le> 1000"
  "\<exists>bs. case_pop_strum 4 [a, b, c] = Inr bs \<and> length bs \<le> 1000"
  "\<exists>bs. case_travis_picking 4 [a, b, c] = Inr bs \<and> length bs \<le> 1000"
  "\<exists>bs. case_alberti_bass 4 [a, b, c] = Inr bs \<and> length bs \<le> 1000"
  "\<exists>bs. case_triplet_arpeggio 4 [a, b, c] = Inr bs \<and> length bs \<le> 1000"
  "\<exists>bs. case_pop_stabs 4 [a, b, c] = Inr bs \<and> length bs \<le> 1000"
  "\<exists>bs. case_bossa_nova 4 [a, b, c] = Inr bs \<and> length bs \<le> 1000"
  "\<exists>bs. case_reggae_skank 4 [a, b, c] = Inr bs \<and> length bs \<le> 1000"
  "\<exists>bs. case_funk_16th 4 [a, b, c] = Inr bs \<and> length bs \<le> 1000"
  "\<exists>bs. case_jazz_swing 4 [a, b, c] = Inr bs \<and> length bs \<le> 1000"
  "\<exists>bs. case_rock_8th 4 [a, b, c] = Inr bs \<and> length bs \<le> 1000"
  "\<exists>bs. case_let_it_be 4 [a, b, c] = Inr bs \<and> length bs \<le> 1000"
  "\<exists>bs. case_stand_by_me 4 [a, b, c] = Inr bs \<and> length bs \<le> 1000"
  "\<exists>bs. case_creep_arpeggio 4 [a, b, c] = Inr bs \<and> length bs \<le> 1000"
  "\<exists>bs. case_twist_and_shout 4 [a, b, c] = Inr bs \<and> length bs \<le> 1000"
  "\<exists>bs. case_blues_shuffle 4 [a, b, c] = Inr bs \<and> length bs \<le> 1000"
  "\<exists>bs. case_sweet_home_alabama 4 [a, b, c] = Inr bs \<and> length bs \<le> 1000"
  "\<exists>bs. case_stairway_arpeggio 4 [a, b, c] = Inr bs \<and> length bs \<le> 1000"
  "\<exists>bs. case_hotel_california 4 [a, b, c] = Inr bs \<and> length bs \<le> 1000"
  "\<exists>bs. case_wonderwall_strum 4 [a, b, c] = Inr bs \<and> length bs \<le> 1000"
  "\<exists>bs. case_blackbird_pick 4 [a, b, c] = Inr bs \<and> length bs \<le> 1000"
  "\<exists>bs. case_palm_mute_8th 4 [a, b, c] = Inr bs \<and> length bs \<le> 1000"
  "\<exists>bs. case_off_beat_8th 4 [a, b, c] = Inr bs \<and> length bs \<le> 1000"
  "\<exists>bs. case_country_alt_bass 4 [a, b, c] = Inr bs \<and> length bs \<le> 1000"
  "\<exists>bs. case_pima_arpeggio 4 [a, b, c] = Inr bs \<and> length bs \<le> 1000"
  "\<exists>bs. case_four_on_the_floor 4 [a, b, c] = Inr bs \<and> length bs \<le> 1000"
  by (simp_all add: case_defs emit_simps table_simps)

lemma cases_return_4:
  "\<exists>bs. case_default 4 [a, b, c, d] = Inr bs \<and> length bs \<le> 1000"
  "\<exists>bs. case_half 4 [a, b, c, d] = Inr bs \<and> length bs \<le> 1000"
  "\<exists>bs. case_quarter 4 [a, b, c, d] = Inr bs \<and> length bs \<le> 1000"
  "\<exists>bs. case_arpeggio_up 4 [a, b, c, d] = Inr bs \<and> length bs \<le> 1000"
  "\<exists>bs. case_arpeggio_down 4 [a, b, c, d] = Inr bs \<and> length bs \<le> 1000"
  "\<exists>bs. case_boom_chick 4 [a, b, c, d] = Inr bs \<and> length bs \<le> 1000"
  "\<exists>bs. case_pop_strum 4 [a, b, c, d] = Inr bs \<and> length bs \<le> 1000"
  "\<exists>bs. case_travis_picking 4 [a, b, c, d] = Inr bs \<and> length bs \<le> 1000"
  "\<exists>bs. case_alberti_bass 4 [a, b, c, d] = Inr bs \<and> length bs \<le> 1000"
  "\<exists>bs. case_triplet_arpeggio 4 [a, b, c, d] = Inr bs \<and> length bs \<le> 1000"
  "\<exists>bs. case_pop_stabs 4 [a, b, c, d] = Inr bs \<and> length bs \<le> 1000"
  "\<exists>bs. case_bossa_nova 4 [a, b, c, d] = Inr bs \<and> length bs \<le> 1000"
  "\<exists>bs. case_reggae_skank 4 [a, b, c, d] = Inr bs \<and> length bs \<le> 1000"
  "\<exists>bs. case_funk_16th 4 [a, b, c, d] = Inr bs \<and> length bs \<le> 1000"
  "\<exists>bs. case_jazz_swing 4 [a, b, c, d] = Inr bs \<and> length bs \<le> 1000"
  "\<exists>bs. case_rock_8th 4 [a, b, c, d] = Inr bs \<and> length bs \<le> 1000"
  "\<exists>bs. case_let_it_be 4 [a, b, c, d] = Inr bs \<and> length bs \<le> 1000"
  "\<exists>bs. case_stand_by_me 4 [a, b, c, d] = Inr bs \<and> length bs \<le> 1000"
  "\<exists>bs. case_creep_arpeggio 4 [a, b, c, d] = Inr bs \<and> length bs \<le> 1000"
  "\<exists>bs. case_twist_and_shout 4 [a, b, c, d] = Inr bs \<and> length bs \<le> 1000"
  "\<exists>bs. case_blues_shuffle 4 [a, b, c, d] = Inr bs \<and> length bs \<le> 1000"
  "\<exists>bs. case_sweet_home_alabama 4 [a, b, c, d] = Inr bs \<and> length bs \<le> 1000"
  "\<exists>bs. case_stairway_arpeggio 4 [a, b, c, d] = Inr bs \<and> length bs \<le> 1000"
  "\<exists>bs. case_hotel_california 4 [a, b, c, d] = Inr bs \<and> length bs \<le> 1000"
  "\<exists>bs. case_wonderwall_strum 4 [a, b, c, d] = Inr bs \<and> length bs \<le> 1000"
  "\<exists>bs. case_blackbird_pick 4 [a, b, c, d] = Inr bs \<and> length bs \<le> 1000"
  "\<exists>bs. case_palm_mute_8th 4 [a, b, c, d] = Inr bs \<and> length bs \<le> 1000"
  "\<exists>bs. case_off_beat_8th 4 [a, b, c, d] = Inr bs \<and> length bs \<le> 1000"
  "\<exists>bs. case_country_alt_bass 4 [a, b, c, d] = Inr bs \<and> length bs \<le> 1000"
  "\<exists>bs. case_pima_arpeggio 4 [a, b, c, d] = Inr bs \<and> length bs \<le> 1000"
  "\<exists>bs. case_four_on_the_floor 4 [a, b, c, d] = Inr bs \<and> length bs \<le> 1000"
  by (simp_all add: case_defs emit_simps table_simps)

lemma patternBytes_returns:
  assumes "p \<in> set catalog" and "length notes = 3 \<or> length notes = 4"
  shows "\<exists>bs. patternBytes p 4 notes = Inr bs \<and> length bs \<le> 1000"
proof -
  from assms(2) consider a b c where "notes = [a, b, c]" | a b c d where "notes = [a, b, c, d]"
    by (auto simp: length_Suc_conv eval_nat_numeral)
  then show ?thesis
  proof cases
    case 1
    from assms(1) show ?thesis
      unfolding catalog_def 1 set_simps insert_iff empty_iff
      by (elim disjE) (simp_all only: patternBytes_table cases_return_3)
  next
    case 2
    from assms(1) show ?thesis
      unfolding catalog_def 2 set_simps insert_iff empty_iff
      by (elim disjE) (simp_all only: patternBytes_table cases_return_4)
  qed
qed


lemma qualityIntervals_length:
  "qualityIntervals suffix = Some ivs \<Longrightarrow> length ivs = 3 \<or> length ivs = 4"
  by (auto simp: qualityIntervals_def split: if_splits)

lemma chordToMidi_length: "length (chordToMidi chord oct) = 3 \<or> length (chordToMidi chord oct) = 4"
  using qualityIntervals_length [of "chordSuffix chord"]
  by (cases "qualityIntervals (chordSuffix chord)") (auto simp: chordToMidi_def Let_def)

lemma chordNotes_no_frets: "Frets req = [] \<Longrightarrow> chordNotes req ci name = chordToMidi name (Octave req)"
  by (simp add: chordNotes_def)

lemma tempoEvent_120: "tempoEvent 120 = Inr [0x00, 0xFF, 0x51, 0x03, 0x07, 0xA1, 0x20]"
  by code_simp

lemma split4:
  fixes n :: nat
  shows "((n div 16777216 * 256 + n div 65536 mod 256) * 256 + n div 256 mod 256) * 256
         + n mod 256 = n"
proof -
  define q1 where "q1 = n div 256"
  define q2 where "q2 = q1 div 256"
  define q3 where "q3 = q2 div 256"
  have e2: "n div 65536 = q2" by (simp add: q2_def q1_def div_mult2_eq [symmetric])
  have e3: "n div 16777216 = q3" by (simp add: q3_def q2_def q1_def div_mult2_eq [symmetric])
  have "q3 * 256 + q2 mod 256 = q2" by (simp add: q3_def)
  moreover have "q2 * 256 + q1 mod 256 = q1" by (simp add: q2_def)
  moreover have "q1 * 256 + n mod 256 = n" by (simp add: q1_def)
  ultimately show ?thesis
    unfolding e2 e3 q1_def [symmetric] by simp
qed

lemma ube_be32: "ube (be32 w) = unat w"
proof -
  have b: "unat (ucast (drop_bit k w) :: byte) = unat w div 2 ^ k mod 256" for k
    by (simp only: unsigned_ucast_eq unat_drop_bit_eq) (simp add: take_bit_eq_mod drop_bit_eq_div)
  have b0: "unat (ucast w :: byte) = unat w mod 256"
    by (simp only: unsigned_ucast_eq) (simp add: take_bit_eq_mod)
  have "unat w < 4294967296" using unsigned_less [of w] by simp
  then have "unat w div 16777216 < 256" by simp
  then have top: "unat w div 16777216 mod 256 = unat w div 16777216" by simp
  from split4 [of "unat w"] show ?thesis
    unfolding ube_def be32_def by (simp add: b b0 top)
qed

lemma header_consts:
  "be32 6 = [0, 0, 0, 6]" "be16 0 = [0, 0]" "be16 1 = [0, 1]"
  "be16 (ucast ticksPerQuarter) = [0x01, 0xE0]"
  by code_simp+

text \<open>
  For each of the 31 catalog patterns, the file built from a request of two chords, four
  beats per chord and tempo 120 that carries no fret data starts with the signature
  \<open>MThd\<close>, the header length 6 as a big-endian 32-bit number, format 0, one track and
  division 480; the signature \<open>MTrk\<close> is at byte offset 14 and is followed by the
  big-endian 32-bit length of the track data, which is the rest of the file. The two
  chord names and the octave are arbitrary; the notes come from the chord names, three
  or four for each chord.
\<close>

lemma smf_chunks_without_fret_data:
  assumes "p \<in> set catalog"
  shows "\<exists>file. buildMidi \<lparr>Chords = [c1, c2], Tempo = 120, Pattern = p, Octave = oct, Beats = 4,
                          Frets = [], OpenMidi = []\<rparr> = Inr file
           \<and> 22 \<le> length file
           \<and> take 4 file = asBytes ''MThd''
           \<and> ube (take 4 (drop 4 file)) = 6
           \<and> ube (take 2 (drop 8 file)) = 0
           \<and> ube (take 2 (drop 10 file)) = 1
           \<and> ube (take 2 (drop 12 file)) = 480
           \<and> take 4 (drop 14 file) = asBytes ''MTrk''
           \<and> ube (take 4 (drop 18 file)) = length file - 22"
proof -
  define req where "req = \<lparr>Chords = [c1, c2], Tempo = 120, Pattern = p, Octave = oct, Beats = 4,
                          Frets = [], OpenMidi = []\<rparr>"
  from patternBytes_returns [OF assms chordToMidi_length [of c1 oct]] obtain b1
    where b1: "patternBytes p 4 (chordToMidi c1 oct) = Inr b1" "length b1 \<le> 1000" by blast
  from patternBytes_returns [OF assms chordToMidi_length [of c2 oct]] obtain b2
    where b2: "patternBytes p 4 (chordToMidi c2 oct) = Inr b2" "length b2 \<le> 1000" by blast
  define trk where "trk = [0x00, 0xFF, 0x51, 0x03, 0x07, 0xA1, 0x20] @ (b1 @ b2) @ endOfTrack"
  have trk: "buildTrack req = Inr trk"
    using b1(1) b2(1)
    by (simp add: buildTrack_def req_def tempoEvent_120 chordNotes_no_frets enumerate_eq_zip
        upt_rec [of 0] upt_rec [of "Suc 0"] bindE_def appendE_def trk_def)
  have len: "length trk \<le> 2011"
    using b1(2) b2(2) by (simp add: trk_def endOfTrack_def)
  then have "unat (of_nat (length trk) :: uint32) = length trk"
    by (simp add: unat_of_nat)
  then have sz: "ube (be32 (of_nat (length trk))) = length trk"
    by (simp add: ube_be32)
  define out where "out = asBytes ''MThd'' @ be32 6 @ be16 0 @ be16 1 @ be16 (ucast ticksPerQuarter)
            @ asBytes ''MTrk'' @ be32 (of_nat (length trk)) @ trk"
  have "buildMidi req = Inr out"
    using trk by (simp add: buildMidi_def bindE_def out_def)
  moreover have "length (be32 (of_nat (length trk) :: uint32)) = 4"
    by (simp add: be32_def)
  then obtain s0 s1 s2 s3 where s: "be32 (of_nat (length trk) :: uint32) = [s0, s1, s2, s3]"
    by (auto simp: length_Suc_conv eval_nat_numeral)
  have f: "out = [0x4D, 0x54, 0x68, 0x64, 0, 0, 0, 6, 0, 0, 0, 1, 0x01, 0xE0,
                   0x4D, 0x54, 0x72, 0x6B, s0, s1, s2, s3] @ trk"
    by (simp add: out_def header_consts s asBytes_def)
  have "22 \<le> length out" "take 4 out = asBytes ''MThd''"
    "ube (take 4 (drop 4 out)) = 6" "ube (take 2 (drop 8 out)) = 0"
    "ube (take 2 (drop 10 out)) = 1" "ube (take 2 (drop 12 out)) = 480"
    "take 4 (drop 14 out) = asBytes ''MTrk''"
    by (simp_all add: f asBytes_def ube_def)
  moreover have "ube (take 4 (drop 18 out)) = length out - 22"
    using sz by (simp add: f s)
  ultimately show ?thesis
    unfolding req_def by blast
qed


lemma smf_chunks_without_fret_data_stairway:
  "''stairway-arpeggio'' \<in> set catalog
   \<and> (\<exists>file. buildMidi \<lparr>Chords = [''C'', ''G''], Tempo = 120, Pattern = ''stairway-arpeggio'',
                          Octave = 4, Beats = 4, Frets = [], OpenMidi = []\<rparr> = Inr file
           \<and> 22 \<le> length file
           \<and> take 4 file = asBytes ''MThd''
           \<and> ube (take 4 (drop 4 file)) = 6
           \<and> ube (take 2 (drop 8 file)) = 0
           \<and> ube (take 2 (drop 10 file)) = 1
           \<and> ube (take 2 (drop 12 file)) = 480
           \<and> take 4 (drop 14 file) = asBytes ''MTrk''
           \<and> ube (take 4 (drop 18 file)) = length file - 22)"
proof -
  have h: "''stairway-arpeggio'' \<in> set catalog" by (simp add: catalog_def)
  from smf_chunks_without_fret_data [OF h, of "''C''" "''G''" 4] h show ?thesis by simp
qed

text \<open>The catalog has 31 names: \<open>whole\<close>, the default of the switch, and its 30 cases.\<close>

lemma catalog_size: "length catalog = 31 \<and> distinct catalog"
  by (simp add: catalog_def)

lemma catalog_switch: "set catalog = insert ''whole'' (fst ` set patternTable)"
  by (simp add: catalog_def patternTable_def)

text \<open>
  C7. For every one of the 31 catalog patterns, a request of two chords, four beats per
  chord and tempo 120 yields a file with the header chunk and the track chunk header.
  The code does not do this for every such request: with fret data that resolves to two
  notes per chord (the power chords \<open>x35xxx\<close> and \<open>35xxxx\<close> in standard guitar tuning), or to
  one note per chord, \<open>stairway-arpeggio\<close> reads \<open>notes[2]\<close> or \<open>notes[1]\<close> without a clamp,
  the request faults and there is no file. The read is the one that the section on
  faults evaluates for requests of one chord.
\<close>

theorem stairway_with_frets_builds_no_file:
  "''stairway-arpeggio'' \<in> set catalog
   \<and> fretsToMidi [''x'', ''3'', ''5'', ''x'', ''x'', ''x''] [40, 45, 50, 55, 59, 64] = [48, 55]
   \<and> fretsToMidi [''3'', ''5'', ''x'', ''x'', ''x'', ''x''] [40, 45, 50, 55, 59, 64] = [43, 50]
   \<and> buildMidi \<lparr>Chords = [''C5'', ''G5''], Tempo = 120, Pattern = ''stairway-arpeggio'',
                 Octave = 4, Beats = 4,
                 Frets = [[''x'', ''3'', ''5'', ''x'', ''x'', ''x''],
                          [''3'', ''5'', ''x'', ''x'', ''x'', ''x'']],
                 OpenMidi = [40, 45, 50, 55, 59, 64]\<rparr> = Inl IndexOutOfRange
   \<and> GenerateMidi \<lparr>Chords = [''C'', ''G''], Tempo = 120, Pattern = ''stairway-arpeggio'',
                    Octave = 4, Beats = 4, Frets = [[''0''], [''0'']], OpenMidi = [60]\<rparr>
       = Inl IndexOutOfRange"
  by code_simp

section \<open>Reading the emitted events\<close>

lemma vlqAcc_shorter: "vlqAcc acc bs = Some (v, rest) \<Longrightarrow> length rest < length bs"
proof (induction bs arbitrary: acc)
  case Nil
  then show ?case by simp
next
  case (Cons b bs)
  show ?case
  proof (cases "b AND 0x80 = 0")
    case True
    with Cons.prems show ?thesis by (simp add: Let_def)
  next
    case False
    with Cons.prems have "vlqAcc (push_bit 7 acc OR ucast (b AND 0x7F)) bs = Some (v, rest)"
      by (simp add: Let_def)
    from Cons.IH [OF this] show ?thesis by simp
  qed
qed

lemma vlqRead_shorter: "vlqRead bs = Some (v, rest) \<Longrightarrow> length rest < length bs"
  by (simp add: vlqRead_def vlqAcc_shorter)

lemma readEvent_shorter:
  assumes "readEvent bs = Some (e, rest)"
  shows "length rest < length bs"
proof -
  from assms obtain d r where d: "vlqRead bs = Some (d, r)"
    by (auto simp: readEvent_def split: option.splits)
  from vlqRead_shorter [OF this] have "length r < length bs" .
  moreover have "length rest \<le> length r"
    using assms d
    by (auto simp: readEvent_def split: option.splits list.splits if_splits
        dest!: vlqRead_shorter)
  ultimately show ?thesis by simp
qed

lemma readEvents_fuel_eq:
  "length bs \<le> k \<Longrightarrow> length bs \<le> k' \<Longrightarrow> readEvents k bs = readEvents k' bs"
proof (induction k arbitrary: k' bs)
  case 0
  then show ?case by simp
next
  case (Suc k)
  show ?case
  proof (cases bs)
    case Nil
    then show ?thesis by simp
  next
    case (Cons b bs')
    with Suc.prems obtain j where j: "k' = Suc j" by (cases k') auto
    show ?thesis
    proof (cases "readEvent bs")
      case None
      with Cons j show ?thesis by simp
    next
      case (Some p)
      obtain e rest where p: "p = (e, rest)" by (cases p)
      from readEvent_shorter [of bs e rest] Some p have "length rest < length bs" by simp
      with Suc.prems j have "length rest \<le> k" "length rest \<le> j" by simp_all
      from Suc.IH [OF this] Some p Cons j show ?thesis by simp
    qed
  qed
qed

lemma readEvents_fuel: "length bs \<le> k \<Longrightarrow> readEvents k bs = readTrack bs"
  unfolding readTrack_def by (rule readEvents_fuel_eq) simp_all

lemma readTrack_Nil: "readTrack [] = Some []"
  by (simp add: readTrack_def)

lemma readTrack_step:
  assumes "readEvent bs = Some (e, rest)"
  shows "readTrack bs = map_option (Cons e) (readTrack rest)"
proof -
  from readEvent_shorter [OF assms] obtain b bs' where bs: "bs = b # bs'" by (cases bs) auto
  from readEvent_shorter [OF assms] bs have "length rest \<le> length bs'" by simp
  from readEvents_fuel [OF this] assms bs show ?thesis
    by (simp add: readTrack_def)
qed


lemma readEvent_noteOn:
  assumes "\<forall>rest. vlqRead (dbs @ rest) = Some (d, rest)"
  shows "readEvent (dbs @ [0x90, n, v] @ rest) = Some (NoteOn d 0 n v, rest)"
  using assms by (simp add: readEvent_def)

lemma readEvent_noteOff:
  assumes "\<forall>rest. vlqRead (dbs @ rest) = Some (d, rest)"
  shows "readEvent (dbs @ [0x80, n, v] @ rest) = Some (NoteOff d 0 n v, rest)"
  using assms by (simp add: readEvent_def)

lemma emits_noteOnEvent:
  assumes "d < 0x10000000"
  shows "emits (noteOnEvent d 0 n v) [NoteOn d 0 n v]"
proof -
  from varLen_read_back [OF assms] obtain dbs
    where dbs: "varLen d = Inr dbs" "\<forall>rest. vlqRead (dbs @ rest) = Some (d, rest)" by blast
  have "readTrack ((dbs @ [0x90, n, v]) @ rest) = map_option (\<lambda>t. [NoteOn d 0 n v] @ t) (readTrack rest)"
    for rest
    using readTrack_step [OF readEvent_noteOn [OF dbs(2), of n v rest]]
    by (cases "readTrack rest") simp_all
  with dbs(1) show ?thesis
    by (simp add: emits_def noteOnEvent_def bindE_def)
qed

lemma emits_noteOffEvent:
  assumes "d < 0x10000000"
  shows "emits (noteOffEvent d 0 n) [NoteOff d 0 n 0]"
proof -
  from varLen_read_back [OF assms] obtain dbs
    where dbs: "varLen d = Inr dbs" "\<forall>rest. vlqRead (dbs @ rest) = Some (d, rest)" by blast
  have "readTrack ((dbs @ [0x80, n, 0]) @ rest) = map_option (\<lambda>t. [NoteOff d 0 n 0] @ t) (readTrack rest)"
    for rest
    using readTrack_step [OF readEvent_noteOff [OF dbs(2), of n 0 rest]]
    by (cases "readTrack rest") simp_all
  with dbs(1) show ?thesis
    by (simp add: emits_def noteOffEvent_def bindE_def)
qed

lemma emits_Nil: "emits (Inr []) []"
proof -
  have "readTrack rest = map_option (\<lambda>t. [] @ t) (readTrack rest)" for rest
    by (cases "readTrack rest") simp_all
  then show ?thesis by (simp add: emits_def)
qed

lemma emits_appendE:
  assumes "emits a ea" and "emits b eb"
  shows "emits (appendE a b) (ea @ eb)"
proof -
  from assms obtain as bs where
    a: "a = Inr as" "\<forall>rest. readTrack (as @ rest) = map_option (\<lambda>t. ea @ t) (readTrack rest)" and
    b: "b = Inr bs" "\<forall>rest. readTrack (bs @ rest) = map_option (\<lambda>t. eb @ t) (readTrack rest)"
    by (auto simp: emits_def)
  have "readTrack ((as @ bs) @ rest) = map_option (\<lambda>t. (ea @ eb) @ t) (readTrack rest)" for rest
    using a(2) b(2) by (cases "readTrack rest") simp_all
  with a(1) b(1) show ?thesis
    by (simp add: emits_def appendE_def bindE_def)
qed

lemma emits_seqE:
  assumes "list_all2 emits ms es"
  shows "emits (seqE ms) (concat es)"
  using assms by (induction rule: list_all2_induct) (simp_all add: emits_Nil emits_appendE)

lemma emits_seqE_map:
  assumes "\<And>x. x \<in> set xs \<Longrightarrow> emits (f x) (g x)"
  shows "emits (seqE (map f xs)) (concat (map g xs))"
  using assms by (intro emits_seqE) (simp add: list_all2_conv_all_nth)

lemma emits_forE:
  assumes "\<And>i. i < n \<Longrightarrow> emits (body i) (g i)"
  shows "emits (forE n body) (concat (map g [0..<n]))"
  unfolding forE_def using assms by (intro emits_seqE_map) simp

lemma emits_bindE: "m = Inr x \<Longrightarrow> emits (f x) evs \<Longrightarrow> emits (bindE m f) evs"
  by (simp add: bindE_def)

lemma emits_result:
  assumes "emits m evs"
  shows "\<exists>bs. m = Inr bs \<and> readTrack bs = Some evs"
proof -
  from assms obtain bs where
    "m = Inr bs" "\<forall>rest. readTrack (bs @ rest) = map_option (\<lambda>t. evs @ t) (readTrack rest)"
    by (auto simp: emits_def)
  from this(1) this(2) [rule_format, of "[]"] show ?thesis
    by (simp add: readTrack_Nil)
qed


lemma emits_notesOn: "emits (notesOn vel notes) (onEvents vel notes)"
proof -
  have "emits (seqE (map (\<lambda>n. noteOnEvent 0 0 n vel) notes))
          (concat (map (\<lambda>n. [NoteOn 0 0 n vel]) notes))"
    by (rule emits_seqE_map) (simp add: emits_noteOnEvent)
  then show ?thesis by (simp add: notesOn_def onEvents_def)
qed

lemma concat_singletons: "concat (map (\<lambda>x. [f x]) xs) = map f xs"
  by (induction xs) simp_all

lemma emits_notesOff:
  assumes "dur < 0x10000000"
  shows "emits (notesOff dur notes) (offEvents dur notes)"
proof -
  have "emits (seqE (map (\<lambda>(j, n). noteOffEvent (if j = 0 then dur else 0) 0 n) (enumerate 0 notes)))
          (concat (map (\<lambda>(j, n). [NoteOff (if j = 0 then dur else 0) 0 n 0]) (enumerate 0 notes)))"
    using assms by (intro emits_seqE_map) (auto simp: emits_noteOffEvent)
  moreover have "concat (map (\<lambda>(j, n). [NoteOff (if j = 0 then dur else 0) 0 n 0]) (enumerate 0 notes))
      = offEvents dur notes"
    unfolding offEvents_def
    using concat_singletons [of "\<lambda>(j, n). NoteOff (if j = 0 then dur else 0) 0 n 0" "enumerate 0 notes"]
    by (simp add: case_prod_unfold)
  ultimately show ?thesis by (simp add: notesOff_def)
qed

lemma emits_strike:
  "dur < 0x10000000 \<Longrightarrow> emits (strike vel dur notes) (strikeEvents vel dur notes)"
  by (simp add: strike_def strikeEvents_def emits_appendE emits_notesOn emits_notesOff)

lemma emits_pluck:
  "dur < 0x10000000 \<Longrightarrow> emits (pluck n vel dur) (pluckEvents n vel dur)"
  using emits_appendE [OF emits_noteOnEvent [of 0 n vel] emits_noteOffEvent [of dur n]]
  by (simp add: pluck_def pluckEvents_def)

lemma emits_silence:
  "dur < 0x10000000 \<Longrightarrow> emits (silence dur) (restEvents dur)"
  using emits_appendE [OF emits_noteOnEvent [of 0 0 0] emits_noteOffEvent [of dur 0]]
  by (simp add: silence_def restEvents_def)


section \<open>Rests\<close>

lemma concat_map_concat:
  "concat (map (\<lambda>i. concat (map g (h i))) xs) = concat (map g (concat (map h xs)))"
  by (induction xs) simp_all

lemma emits_cycle:
  assumes "\<And>i. i < n \<Longrightarrow> emits (body i) (concat (map g (table ! (i mod length table))))"
  shows "emits (forE n body) (concat (map g (cycle table n)))"
  using emits_forE [of n body "\<lambda>i. concat (map g (table ! (i mod length table)))"] assms
  by (simp add: cycle_def concat_map_concat)

lemma pluck_as_strike: "pluckEvents n vel dur = strikeEvents vel dur [n]"
  by (simp add: pluckEvents_def strikeEvents_def onEvents_def offEvents_def enumerate_eq_zip)

lemma tick_values:
  "beatTicks = 480" "eighthTicks = 240" "sixteenthTicks = 120" "tripletTicks = 160"
  "beatTicks div 4 = 120" "3 * beatTicks div 4 = 360" "eighthTicks div 2 = 120"
  by code_simp+

lemma mod8_cases:
  "(i::nat) mod 8 = 0 \<or> i mod 8 = 1 \<or> i mod 8 = 2 \<or> i mod 8 = 3 \<or> i mod 8 = 4
   \<or> i mod 8 = 5 \<or> i mod 8 = 6 \<or> i mod 8 = 7"
  by arith

lemma slot_emits:
  "emits (strike vel 120 notes) (strikeEvents vel 120 notes)"
  "emits (strike vel 240 notes) (strikeEvents vel 240 notes)"
  "emits (strike vel 480 notes) (strikeEvents vel 480 notes)"
  "emits (silence 120) (restEvents 120)"
  "emits (silence 240) (restEvents 240)"
  "emits (silence 360) (restEvents 360)"
  "emits (silence 480) (restEvents 480)"
  "emits (pluck n vel 240) (strikeEvents vel 240 [n])"
  "emits (pluck n vel 480) (strikeEvents vel 480 [n])"
  by (simp_all add: emits_strike emits_silence emits_pluck pluck_as_strike [symmetric])

lemmas slot_simps = slot_emits tick_values

lemma emits_pop_stabs:
  "emits (case_pop_stabs beats notes)
     (concat (map (slotEvents notes) (cycle popStabsSlots (slotCount beats eighthTicks))))"
  unfolding case_pop_stabs_def
proof (rule emits_cycle)
  fix i
  from mod8_cases [of i]
  show "emits (if popStabsPattern ! (i mod length popStabsPattern) then strike 100 eighthTicks notes
               else silence eighthTicks)
          (concat (map (slotEvents notes) (popStabsSlots ! (i mod length popStabsSlots))))"
    by (elim disjE) (simp_all add: popStabsPattern_def popStabsSlots_def slot_simps)
qed

lemma emits_reggae_skank:
  "emits (case_reggae_skank beats notes)
     (concat (map (slotEvents notes) (cycle reggaeSkankSlots (nat beats))))"
  unfolding case_reggae_skank_def
proof (rule emits_cycle)
  fix i :: nat
  have l: "length reggaeSkankSlots = 2" by (simp add: reggaeSkankSlots_def)
  have "i mod 2 = 0 \<or> i mod 2 = 1" by arith
  then show "emits (if i mod 2 = 1
               then appendE (strike 110 (beatTicks div 4) notes) (silence (3 * beatTicks div 4))
               else silence beatTicks)
          (concat (map (slotEvents notes) (reggaeSkankSlots ! (i mod length reggaeSkankSlots))))"
    unfolding l by (elim disjE) (simp_all add: reggaeSkankSlots_def slot_simps emits_appendE)
qed


lemma emits_pop_strum:
  "emits (case_pop_strum beats notes)
     (concat (map (slotEvents notes) (cycle popStrumSlots (slotCount beats eighthTicks))))"
  unfolding case_pop_strum_def
proof (rule emits_cycle)
  fix i
  from mod8_cases [of i]
  show "emits (let (active, up, vel) = popStrumPattern ! (i mod length popStrumPattern)
               in if active then strike vel eighthTicks (if up then rev notes else notes)
                  else silence eighthTicks)
          (concat (map (slotEvents notes) (popStrumSlots ! (i mod length popStrumSlots))))"
    by (elim disjE) (simp_all add: popStrumPattern_def popStrumSlots_def slot_simps)
qed

lemma emits_funk_16th:
  "emits (case_funk_16th beats notes)
     (concat (map (slotEvents notes) (cycle funk16thSlots (slotCount beats sixteenthTicks))))"
  unfolding case_funk_16th_def
proof (rule emits_cycle)
  fix i
  from mod8_cases [of i]
  show "emits (if funkPattern ! (i mod 8) then strike 110 sixteenthTicks notes
               else silence sixteenthTicks)
          (concat (map (slotEvents notes) (funk16thSlots ! (i mod length funk16thSlots))))"
    by (elim disjE) (simp_all add: funkPattern_def funk16thSlots_def slot_simps)
qed

lemma emits_jazz_swing:
  "emits (case_jazz_swing beats notes)
     (concat (map (slotEvents notes) (cycle jazzSwingSlots (slotCount beats eighthTicks))))"
  unfolding case_jazz_swing_def
proof (rule emits_cycle)
  fix i
  from mod8_cases [of i]
  show "emits (if swingPattern ! (i mod 8) then strike 100 eighthTicks notes
               else silence eighthTicks)
          (concat (map (slotEvents notes) (jazzSwingSlots ! (i mod length jazzSwingSlots))))"
    by (elim disjE) (simp_all add: swingPattern_def jazzSwingSlots_def slot_simps)
qed

lemma emits_twist_and_shout:
  "emits (case_twist_and_shout beats notes)
     (concat (map (slotEvents notes) (cycle twistAndShoutSlots 8)))"
  unfolding case_twist_and_shout_def
proof (rule emits_cycle)
  fix i
  from mod8_cases [of i]
  show "emits (let (active, up) = twistPattern ! (i mod 8)
               in if active then strike 105 eighthTicks (if up then rev notes else notes)
                  else silence eighthTicks)
          (concat (map (slotEvents notes) (twistAndShoutSlots ! (i mod length twistAndShoutSlots))))"
    by (elim disjE) (simp_all add: twistPattern_def twistAndShoutSlots_def slot_simps)
qed

lemma emits_palm_mute_8th:
  "emits (case_palm_mute_8th beats notes) (concat (map (slotEvents notes) (cycle palmMuteSlots 8)))"
  unfolding case_palm_mute_8th_def
  by (rule emits_cycle) (simp add: palmMuteSlots_def slot_simps emits_appendE)

lemma emits_off_beat_8th:
  "emits (case_off_beat_8th beats notes) (concat (map (slotEvents notes) (cycle offBeatSlots 8)))"
  unfolding case_off_beat_8th_def
proof (rule emits_cycle)
  fix i :: nat
  have l: "length offBeatSlots = 2" by (simp add: offBeatSlots_def)
  have "i mod 2 = 0 \<or> i mod 2 = 1" by arith
  then show "emits (if i mod 2 = 1 then strike 100 eighthTicks notes else silence eighthTicks)
          (concat (map (slotEvents notes) (offBeatSlots ! (i mod length offBeatSlots))))"
    unfolding l by (elim disjE) (simp_all add: offBeatSlots_def slot_simps)
qed

lemma emits_wonderwall_strum:
  "emits (case_wonderwall_strum beats notes)
     (concat (map (slotEvents notes) (cycle wonderwallSlots 16)))"
  unfolding case_wonderwall_strum_def
proof (rule emits_cycle)
  fix i :: nat
  assume "i < 16"
  then have "i \<in> set [0..<16]" by simp
  then show "emits (if wonderwallPattern ! i then strike 100 sixteenthTicks notes
               else silence sixteenthTicks)
          (concat (map (slotEvents notes) (wonderwallSlots ! (i mod length wonderwallSlots))))"
    unfolding upt_consts set_simps
    by (elim insertE emptyE) (simp_all add: wonderwallPattern_def wonderwallSlots_def slot_simps)
qed

lemma index_first: "notes \<noteq> [] \<Longrightarrow> index notes 0 = Inr (hd notes)"
  by (cases "notes") (simp_all add: index_def)

lemma emits_stand_by_me:
  assumes "notes \<noteq> []"
  shows "emits (case_stand_by_me beats notes)
     (concat (map (slotEvents notes) (cycle standByMeSlots 8)))"
  unfolding case_stand_by_me_def index_first [OF assms] bindE_def sum.case Let_def
proof (rule emits_cycle)
  fix i
  from mod8_cases [of i]
  show "emits (if standByMePattern ! (i mod length standByMePattern) = 1
               then pluck (hd notes - 12) 110 eighthTicks
               else if standByMePattern ! (i mod length standByMePattern) = 2
                    then strike 90 eighthTicks notes else silence eighthTicks)
          (concat (map (slotEvents notes) (standByMeSlots ! (i mod length standByMeSlots))))"
    by (elim disjE)
       (simp_all add: standByMePattern_def standByMeSlots_def slot_simps)
qed

lemma mod8_mod4_cases:
  "((i::nat) mod 8 = 0 \<and> i mod 4 = 0) \<or> (i mod 8 = 1 \<and> i mod 4 = 1)
   \<or> (i mod 8 = 2 \<and> i mod 4 = 2) \<or> (i mod 8 = 3 \<and> i mod 4 = 3)
   \<or> (i mod 8 = 4 \<and> i mod 4 = 0) \<or> (i mod 8 = 5 \<and> i mod 4 = 1)
   \<or> (i mod 8 = 6 \<and> i mod 4 = 2) \<or> (i mod 8 = 7 \<and> i mod 4 = 3)"
proof -
  have "i mod 8 mod 4 = i mod 4" by (simp add: mod_mod_cancel)
  then have "i mod 4 = i mod 8 mod 4" by (rule sym)
  with mod8_cases [of i] show ?thesis
    by (elim disjE) (simp_all only: , simp_all)
qed

lemma emits_append_Nil: "emits a ea \<Longrightarrow> emits (appendE a (Inr [])) ea"
  using emits_appendE [OF _ emits_Nil, of a ea] by simp

lemma emits_Nil_append: "emits b eb \<Longrightarrow> emits (appendE (Inr []) b) eb"
  using emits_appendE [OF emits_Nil, of b eb] by simp

lemma emits_bossa_nova:
  assumes "notes \<noteq> []"
  shows "emits (case_bossa_nova beats notes)
     (concat (map (slotEvents notes) (cycle bossaNovaSlots (slotCount beats eighthTicks))))"
  unfolding case_bossa_nova_def index_first [OF assms] bindE_def sum.case Let_def
proof (rule emits_cycle)
  fix i
  from mod8_mod4_cases [of i]
  show "emits (appendE (if i mod 4 = 0 then pluck (hd notes - 12) 100 eighthTicks else Inr [])
                 (if bossaChordPattern ! (i mod 8) then strike 90 eighthTicks notes
                  else if i mod 4 \<noteq> 0 then silence eighthTicks else Inr []))
          (concat (map (slotEvents notes) (bossaNovaSlots ! (i mod length bossaNovaSlots))))"
    by (elim disjE conjE)
       (simp_all add: bossaChordPattern_def bossaNovaSlots_def slot_simps emits_append_Nil
          emits_Nil_append emits_appendE)
qed


lemma rest_pattern_emits:
  assumes "map_of restPatterns p = Some (table, count)" and "notes \<noteq> []"
  shows "emits (patternBytes p beats notes)
           (concat (map (slotEvents notes) (cycle table (count beats))))"
proof -
  from assms(1) consider
      "p = ''pop-strum''" "table = popStrumSlots" "count = (\<lambda>beats. slotCount beats eighthTicks)"
    | "p = ''pop-stabs''" "table = popStabsSlots" "count = (\<lambda>beats. slotCount beats eighthTicks)"
    | "p = ''bossa-nova''" "table = bossaNovaSlots" "count = (\<lambda>beats. slotCount beats eighthTicks)"
    | "p = ''reggae-skank''" "table = reggaeSkankSlots" "count = (\<lambda>beats. nat beats)"
    | "p = ''funk-16th''" "table = funk16thSlots" "count = (\<lambda>beats. slotCount beats sixteenthTicks)"
    | "p = ''jazz-swing''" "table = jazzSwingSlots" "count = (\<lambda>beats. slotCount beats eighthTicks)"
    | "p = ''stand-by-me''" "table = standByMeSlots" "count = (\<lambda>beats. 8)"
    | "p = ''twist-and-shout''" "table = twistAndShoutSlots" "count = (\<lambda>beats. 8)"
    | "p = ''wonderwall-strum''" "table = wonderwallSlots" "count = (\<lambda>beats. 16)"
    | "p = ''palm-mute-8th''" "table = palmMuteSlots" "count = (\<lambda>beats. 8)"
    | "p = ''off-beat-8th''" "table = offBeatSlots" "count = (\<lambda>beats. 8)"
    by (auto simp: restPatterns_def split: if_splits)
  then show ?thesis
  proof cases
    case 1 then show ?thesis by (simp add: patternBytes_table emits_pop_strum)
  next
    case 2 then show ?thesis by (simp add: patternBytes_table emits_pop_stabs)
  next
    case 3 then show ?thesis by (simp add: patternBytes_table emits_bossa_nova [OF assms(2)])
  next
    case 4 then show ?thesis by (simp add: patternBytes_table emits_reggae_skank)
  next
    case 5 then show ?thesis by (simp add: patternBytes_table emits_funk_16th)
  next
    case 6 then show ?thesis by (simp add: patternBytes_table emits_jazz_swing)
  next
    case 7 then show ?thesis by (simp add: patternBytes_table emits_stand_by_me [OF assms(2)])
  next
    case 8 then show ?thesis by (simp add: patternBytes_table emits_twist_and_shout)
  next
    case 9 then show ?thesis by (simp add: patternBytes_table emits_wonderwall_strum)
  next
    case 10 then show ?thesis by (simp add: patternBytes_table emits_palm_mute_8th)
  next
    case 11 then show ?thesis by (simp add: patternBytes_table emits_off_beat_8th)
  qed
qed

lemma vlqRead_zero: "vlqRead (0 # rest) = Some (0, rest)"
  by (simp add: vlqRead_def)

lemma vlqRead_three: "vlqRead (3 # rest) = Some (3, rest)"
  by (simp add: vlqRead_def)

lemma emits_tempoEvent:
  assumes "bpm \<noteq> 0"
  shows "emits (tempoEvent bpm) [Meta 0 0x51 (tempoData bpm)]"
proof -
  obtain a b c where d: "tempoData bpm = [a, b, c]" by (simp add: tempoData_def Let_def)
  have t: "tempoEvent bpm = Inr [0x00, 0xFF, 0x51, 0x03, a, b, c]"
    using assms d by (simp add: tempoEvent_def tempoData_def Let_def)
  have "readEvent ([0x00, 0xFF, 0x51, 0x03, a, b, c] @ rest) = Some (Meta 0 0x51 [a, b, c], rest)"
    for rest
    by (simp add: readEvent_def vlqRead_zero vlqRead_three)
  from readTrack_step [OF this]
  have "readTrack ([0x00, 0xFF, 0x51, 0x03, a, b, c] @ rest)
        = map_option (\<lambda>t. [Meta 0 0x51 [a, b, c]] @ t) (readTrack rest)" for rest
    by (cases "readTrack rest") simp_all
  with t d show ?thesis by (simp add: emits_def)
qed

lemma emits_endOfTrack: "emits (Inr endOfTrack) [Meta 0 0x2F []]"
proof -
  have "readEvent ([0x00, 0xFF, 0x2F, 0x00] @ rest) = Some (Meta 0 0x2F [], rest)" for rest
    by (simp add: readEvent_def vlqRead_zero)
  from readTrack_step [OF this]
  have "readTrack ([0x00, 0xFF, 0x2F, 0x00] @ rest)
        = map_option (\<lambda>t. [Meta 0 0x2F []] @ t) (readTrack rest)" for rest
    by (cases "readTrack rest") simp_all
  then show ?thesis by (simp add: emits_def endOfTrack_def)
qed

lemma buildTrack_appendE:
  "buildTrack req =
     appendE (tempoEvent (Tempo req))
       (appendE (seqE (map (\<lambda>(ci, chordName).
                   patternBytes (Pattern req) (Beats req) (chordNotes req ci chordName))
                 (enumerate 0 (Chords req))))
          (Inr endOfTrack))"
  by (simp add: buildTrack_def appendE_def bindE_def split: sum.splits)

lemma emits_buildTrack:
  assumes "Tempo req \<noteq> 0"
    and "\<And>ci name. (ci, name) \<in> set (enumerate 0 (Chords req)) \<Longrightarrow>
           emits (patternBytes (Pattern req) (Beats req) (chordNotes req ci name)) (ev (ci, name))"
  shows "emits (buildTrack req)
           ([Meta 0 0x51 (tempoData (Tempo req))]
            @ concat (map ev (enumerate 0 (Chords req))) @ [Meta 0 0x2F []])"
proof -
  have "emits (seqE (map (\<lambda>(ci, chordName).
                   patternBytes (Pattern req) (Beats req) (chordNotes req ci chordName))
                 (enumerate 0 (Chords req))))
          (concat (map ev (enumerate 0 (Chords req))))"
    using assms(2) by (intro emits_seqE_map) auto
  from emits_appendE [OF emits_tempoEvent [OF assms(1)] emits_appendE [OF this emits_endOfTrack]]
  show ?thesis by (simp add: buildTrack_appendE)
qed

lemma chordNotes_nonempty: "chordNotes req ci name \<noteq> []"
  using chordToMidi_length [of name "Octave req"]
  by (auto simp: chordNotes_def Let_def)

lemma trackOf_buildMidi:
  "buildTrack req = Inr trk \<Longrightarrow> eventsOf (buildMidi req) = readTrack trk"
  by (simp add: buildMidi_def bindE_def eventsOf_def trackOf_def asBytes_def be32_def be16_def)

lemma eventsOf_emits:
  assumes "emits (buildTrack req) evs"
  shows "eventsOf (buildMidi req) = Some evs"
  using emits_result [OF assms] trackOf_buildMidi by auto


lemma applyDefaults_fields:
  "Tempo (applyDefaults req) \<noteq> 0" "Chords (applyDefaults req) = Chords req"
  "Pattern req \<noteq> [] \<Longrightarrow> Pattern (applyDefaults req) = Pattern req"
  by (simp_all add: applyDefaults_def)

text \<open>
  C5. A rest slot advances the tick position by the slot's duration and appends no event
  to the track. As the code is written, a rest does advance time by its duration, and it
  does so by appending two placeholder events: a note-on for pitch 0 with velocity 0 at
  delta 0, then a note-off for pitch 0 whose delta is the duration. For every request
  whose pattern is one of the eleven with rests, the events of the generated file are the
  tempo event, then for each chord the events of the pattern's slots in order, then the
  end of track; the events of a rest slot are the placeholder pair, spanning the slot's
  duration.
\<close>

theorem rest_slots_emit_placeholder_events:
  assumes "map_of restPatterns (Pattern req) = Some (table, count)"
    and "req' = applyDefaults req"
  shows "eventsOf (GenerateMidi req) =
           Some ([Meta 0 0x51 (tempoData (Tempo req'))]
                 @ concat (map (\<lambda>(ci, name).
                             concat (map (slotEvents (chordNotes req' ci name))
                                       (cycle table (count (Beats req')))))
                           (enumerate 0 (Chords req)))
                 @ [Meta 0 0x2F []])
         \<and> slotEvents notes (Slot Silence vel dur) = [NoteOn 0 0 0 0, NoteOff dur 0 0 0]
         \<and> ticksOf (slotEvents notes (Slot Silence vel dur)) = unat dur"
proof -
  from assms(1) have "Pattern req \<noteq> []"
    by (auto simp: restPatterns_def)
  then have p: "Pattern req' = Pattern req"
    by (simp add: assms(2) applyDefaults_fields)
  have t: "Tempo req' \<noteq> 0" and c: "Chords req' = Chords req"
    by (simp_all add: assms(2) applyDefaults_fields)
  have "emits (buildTrack req')
          ([Meta 0 0x51 (tempoData (Tempo req'))]
           @ concat (map (\<lambda>(ci, name).
                       concat (map (slotEvents (chordNotes req' ci name))
                                 (cycle table (count (Beats req')))))
                     (enumerate 0 (Chords req')))
           @ [Meta 0 0x2F []])"
    using rest_pattern_emits [OF assms(1) chordNotes_nonempty]
    by (intro emits_buildTrack [OF t]) (simp add: p)
  from eventsOf_emits [OF this] have "eventsOf (GenerateMidi req) =
           Some ([Meta 0 0x51 (tempoData (Tempo req'))]
                 @ concat (map (\<lambda>(ci, name).
                             concat (map (slotEvents (chordNotes req' ci name))
                                       (cycle table (count (Beats req')))))
                           (enumerate 0 (Chords req)))
                 @ [Meta 0 0x2F []])"
    by (simp add: GenerateMidi_def assms(2) [symmetric] c)
  then show ?thesis
    by (simp add: restEvents_def ticksOf_def)
qed


theorem rest_slots_emit_placeholder_events_witness:
  "map_of restPatterns ''pop-stabs'' = Some (popStabsSlots, \<lambda>beats. slotCount beats eighthTicks)
   \<and> eventsOf (GenerateMidi (plainRequest [''C''] ''pop-stabs'' 1)) =
       Some [Meta 0 0x51 [0x07, 0xA1, 0x20],
             NoteOn 0 0 60 100, NoteOn 0 0 64 100, NoteOn 0 0 67 100,
             NoteOff 240 0 60 0, NoteOff 0 0 64 0, NoteOff 0 0 67 0,
             NoteOn 0 0 0 0, NoteOff 240 0 0 0,
             Meta 0 0x2F []]
   \<and> ticksOf (slotEvents [60, 64, 67] (Slot Silence 0 240)) = 240"
proof -
  have h: "map_of restPatterns (Pattern (plainRequest [''C''] ''pop-stabs'' 1))
           = Some (popStabsSlots, \<lambda>beats. slotCount beats eighthTicks)"
    by (simp add: restPatterns_def plainRequest_def)
  have v: "[Meta 0 0x51 (tempoData (Tempo (applyDefaults (plainRequest [''C''] ''pop-stabs'' 1))))]
        @ concat (map (\<lambda>(ci, name).
             concat (map (slotEvents (chordNotes (applyDefaults (plainRequest [''C''] ''pop-stabs'' 1)) ci name))
               (cycle popStabsSlots (slotCount (Beats (applyDefaults (plainRequest [''C''] ''pop-stabs'' 1))) eighthTicks))))
             (enumerate 0 (Chords (plainRequest [''C''] ''pop-stabs'' 1))))
        @ [Meta 0 0x2F []]
        = [Meta 0 0x51 [0x07, 0xA1, 0x20],
             NoteOn 0 0 60 100, NoteOn 0 0 64 100, NoteOn 0 0 67 100,
             NoteOff 240 0 60 0, NoteOff 0 0 64 0, NoteOff 0 0 67 0,
             NoteOn 0 0 0 0, NoteOff 240 0 0 0,
             Meta 0 0x2F []]"
    by code_simp
  from rest_slots_emit_placeholder_events [OF h refl, of "[60, 64, 67]" 0 240] h v
  show ?thesis by (simp add: plainRequest_def restEvents_def)
qed

text \<open>
  The claim as stated fails: over one beat \<open>pop-stabs\<close> has two eighth-note slots, the
  second is a rest, and the track has two events for it.
\<close>

theorem rest_slot_appends_events_counterexample:
  "slotCount 1 eighthTicks = 2 \<and> \<not> popStabsPattern ! 1
   \<and> eventsOf (GenerateMidi (plainRequest [''C''] ''pop-stabs'' 1)) =
       Some [Meta 0 0x51 [0x07, 0xA1, 0x20],
             NoteOn 0 0 60 100, NoteOn 0 0 64 100, NoteOn 0 0 67 100,
             NoteOff 240 0 60 0, NoteOff 0 0 64 0, NoteOff 0 0 67 0,
             NoteOn 0 0 0 0, NoteOff 240 0 0 0,
             Meta 0 0x2F []]"
  by code_simp

section \<open>Bass notes\<close>

lemma emits_unique: "emits m e1 \<Longrightarrow> emits m e2 \<Longrightarrow> e1 = e2"
  using emits_result [of m e1] emits_result [of m e2] by auto

lemma index_in_range: "0 \<le> i \<Longrightarrow> i < len ns \<Longrightarrow> index ns i = Inr (ns ! nat i)"
  by (simp add: index_def len_def)

lemma emits_boom_chick:
  assumes "notes \<noteq> []"
  shows "emits (case_boom_chick beats notes)
           (strikeEvents 100 480 [hd notes - 12]
            @ concat (map (\<lambda>beat. strikeEvents 90 480
                             (if length (drop 1 notes) = 0 then notes else drop 1 notes))
                       [0..<nat (beats - 1)]))"
  unfolding case_boom_chick_def index_first [OF assms] bindE_def sum.case Let_def
  by (intro emits_appendE emits_forE) (simp_all add: slot_simps)

lemma emits_country_alt_bass:
  assumes "notes \<noteq> []"
  shows "\<exists>evs. emits (case_country_alt_bass beats notes) (strikeEvents 110 480 [hd notes - 12] @ evs)"
proof -
  obtain fifth where f: "(if len notes > 2 then index notes 2 else Inr (hd notes + 7)) = Inr fifth"
    by (cases "len notes > 2") (auto simp: index_in_range)
  define low where "low = (if fifth > 60 then fifth - 12 else fifth)"
  define g where "g = (\<lambda>beat::nat. if beat = 0 then strikeEvents 110 480 [hd notes - 12]
                        else if beat = 2 then strikeEvents 110 480 [low - 12]
                        else strikeEvents 90 480 notes)"
  have "emits (forE 4 (\<lambda>beat. if beat = 0 then pluck (hd notes - 12) 110 beatTicks
                        else if beat = 2 then pluck (low - 12) 110 beatTicks
                        else strike 90 beatTicks notes)) (concat (map g [0..<4]))"
    by (rule emits_forE) (simp add: g_def slot_simps)
  moreover have "concat (map g [0..<4]) = strikeEvents 110 480 [hd notes - 12] @ concat (map g [1..<4])"
    by (simp add: upt_rec [of 0] g_def)
  ultimately show ?thesis
    unfolding case_country_alt_bass_def index_first [OF assms] bindE_def sum.case f Let_def
      low_def [symmetric]
    by (intro exI [of _ "concat (map g [1..<4])"]) simp
qed

lemma strike_single: "strikeEvents vel dur [n] = [NoteOn 0 0 n vel, NoteOff dur 0 n 0]"
  by (simp add: strikeEvents_def onEvents_def offEvents_def enumerate_eq_zip)

lemma cycle_Suc:
  "0 < n \<Longrightarrow> cycle table n = table ! (0 mod length table) @
     concat (map (\<lambda>i. table ! (i mod length table)) [1..<n])"
  by (simp add: cycle_def upt_rec [of 0])

lemma bass_pattern_first_event:
  assumes "p \<in> set bassPatterns" and "notes \<noteq> []"
    and "p = ''bossa-nova'' \<longrightarrow> 0 < slotCount beats eighthTicks"
  shows "\<exists>v evs. emits (patternBytes p beats notes) (NoteOn 0 0 (hd notes - 12) v # evs)"
proof -
  from assms(1) consider "p = ''boom-chick''" | "p = ''bossa-nova''" | "p = ''stand-by-me''"
    | "p = ''country-alt-bass''"
    by (auto simp: bassPatterns_def)
  then show ?thesis
  proof cases
    case 1
    from emits_boom_chick [OF assms(2), of beats] show ?thesis
      unfolding 1 patternBytes_table strike_single by auto
  next
    case 2
    with assms(3) have "0 < slotCount beats eighthTicks" by simp
    from emits_bossa_nova [OF assms(2), of beats] cycle_Suc [OF this, of bossaNovaSlots]
    show ?thesis
      unfolding 2 patternBytes_table by (auto simp: bossaNovaSlots_def strike_single)
  next
    case 3
    from emits_stand_by_me [OF assms(2), of beats] cycle_Suc [of 8 standByMeSlots]
    show ?thesis
      unfolding 3 patternBytes_table by (auto simp: standByMeSlots_def strike_single)
  next
    case 4
    from emits_country_alt_bass [OF assms(2), of beats] show ?thesis
      unfolding 4 patternBytes_table strike_single by auto
  qed
qed

lemma bass_pattern_emits:
  assumes "p \<in> set bassPatterns" and "notes \<noteq> []"
  shows "\<exists>evs. emits (patternBytes p beats notes) evs"
proof -
  from assms(1) consider "p = ''boom-chick''" | "p = ''bossa-nova''" | "p = ''stand-by-me''"
    | "p = ''country-alt-bass''"
    by (auto simp: bassPatterns_def)
  then show ?thesis
  proof cases
    case 1
    have "emits (patternBytes p beats notes)
            (strikeEvents 100 480 [hd notes - 12]
             @ concat (map (\<lambda>beat. strikeEvents 90 480
                              (if length (drop 1 notes) = 0 then notes else drop 1 notes))
                        [0..<nat (beats - 1)]))"
      unfolding 1 patternBytes_table by (rule emits_boom_chick [OF assms(2)])
    then show ?thesis by (rule exI)
  next
    case 2
    have "emits (patternBytes p beats notes)
            (concat (map (slotEvents notes) (cycle bossaNovaSlots (slotCount beats eighthTicks))))"
      unfolding 2 patternBytes_table by (rule emits_bossa_nova [OF assms(2)])
    then show ?thesis by (rule exI)
  next
    case 3
    have "emits (patternBytes p beats notes)
            (concat (map (slotEvents notes) (cycle standByMeSlots 8)))"
      unfolding 3 patternBytes_table by (rule emits_stand_by_me [OF assms(2)])
    then show ?thesis by (rule exI)
  next
    case 4
    from emits_country_alt_bass [OF assms(2), of beats] obtain evs
      where "emits (case_country_alt_bass beats notes) (strikeEvents 110 480 [hd notes - 12] @ evs)"
      by (elim exE)
    then have "emits (patternBytes p beats notes) (strikeEvents 110 480 [hd notes - 12] @ evs)"
      unfolding 4 patternBytes_table .
    then show ?thesis by (rule exI)
  qed
qed

lemma byte_minus_12_wraps:
  fixes n :: byte
  assumes "n < 12"
  shows "unat (n - 12) = unat n + 244 \<and> 127 < n - 12"
proof -
  from assms have n: "unat n < 12" by (simp add: word_less_nat_alt)
  have e: "n - 12 = n + 244" by simp
  from n have "unat (n + 244) = unat n + 244"
    by (simp add: unat_word_ariths)
  then have u: "unat (n - 12) = unat n + 244" unfolding e .
  then have "127 < n - 12" by (simp add: word_less_nat_alt)
  with u show ?thesis by simp
qed

text \<open>
  C10. In \<open>boom-chick\<close>, \<open>bossa-nova\<close>, \<open>stand-by-me\<close> and \<open>country-alt-bass\<close> the bass pitch
  is the lowest note of the note set minus 12 in 8-bit unsigned arithmetic, and whenever
  the lowest note is below 12 the track has a pitch above 127. As the code is written,
  the bass pitch is the first note of the note set, \<open>notes[0]\<close>, minus 12. When that note
  is below 12 the subtraction wraps, the result is the note plus 244, above 127, and the
  generated file has a note-on for it. This holds for every chord of every request with
  one of these patterns; for \<open>bossa-nova\<close> the chord must last at least one eighth note,
  since its bass notes are inside the loop over the eighths.
\<close>

theorem bass_note_wraps_below_12:
  assumes "Pattern req \<in> set bassPatterns" and "req' = applyDefaults req"
    and "ci < length (Chords req)" and "notes = chordNotes req' ci (Chords req ! ci)"
    and "hd notes < 12"
    and "Pattern req = ''bossa-nova'' \<longrightarrow> 0 < slotCount (Beats req') eighthTicks"
  shows "unat (hd notes - 12) = unat (hd notes) + 244 \<and> 127 < hd notes - 12
         \<and> (\<exists>evs v. eventsOf (GenerateMidi req) = Some evs
                    \<and> NoteOn 0 0 (hd notes - 12) v \<in> set evs)"
proof -
  from assms(1) have "Pattern req \<noteq> []" by (auto simp: bassPatterns_def)
  then have p: "Pattern req' = Pattern req"
    by (simp add: assms(2) applyDefaults_fields)
  have t: "Tempo req' \<noteq> 0" and c: "Chords req' = Chords req"
    by (simp_all add: assms(2) applyDefaults_fields)
  have "\<forall>x. \<exists>evs. emits (patternBytes (Pattern req') (Beats req') (chordNotes req' (fst x) (snd x))) evs"
    using bass_pattern_emits [OF assms(1) chordNotes_nonempty] by (simp add: p)
  then obtain ev where ev:
    "\<And>x. emits (patternBytes (Pattern req') (Beats req') (chordNotes req' (fst x) (snd x))) (ev x)"
    by metis
  have "emits (patternBytes (Pattern req') (Beats req') (chordNotes req' cj name)) (ev (cj, name))"
    for cj name
    using ev [of "(cj, name)"] by simp
  then have "emits (buildTrack req')
          ([Meta 0 0x51 (tempoData (Tempo req'))]
           @ concat (map ev (enumerate 0 (Chords req'))) @ [Meta 0 0x2F []])"
    by (intro emits_buildTrack [OF t])
  from eventsOf_emits [OF this]
  have smf: "eventsOf (GenerateMidi req) =
          Some ([Meta 0 0x51 (tempoData (Tempo req'))]
                @ concat (map ev (enumerate 0 (Chords req))) @ [Meta 0 0x2F []])"
    by (simp add: GenerateMidi_def assms(2) [symmetric] c)
  have ne: "notes \<noteq> []" by (simp add: assms(4) chordNotes_nonempty)
  from bass_pattern_first_event [OF assms(1) ne assms(6)] obtain v rest
    where "emits (patternBytes (Pattern req) (Beats req') notes) (NoteOn 0 0 (hd notes - 12) v # rest)"
    by blast
  with ev [of "(ci, Chords req ! ci)"] have "ev (ci, Chords req ! ci) = NoteOn 0 0 (hd notes - 12) v # rest"
    by (auto simp: p assms(4) intro: emits_unique)
  moreover have "(ci, Chords req ! ci) \<in> set (enumerate 0 (Chords req))"
    using assms(3) by (auto simp: in_set_enumerate_eq)
  ultimately have "NoteOn 0 0 (hd notes - 12) v \<in> set (concat (map ev (enumerate 0 (Chords req))))"
    by force
  with smf byte_minus_12_wraps [OF assms(5)] show ?thesis by auto
qed

theorem bass_note_wraps_below_12_witness:
  "''bossa-nova'' \<in> set bassPatterns
   \<and> chordNotes (applyDefaults (fretRequest ''bossa-nova'' [''0''] [5])) 0 ''C'' = [5]
   \<and> (5 :: byte) < 12 \<and> (5 - 12 :: byte) = 249
   \<and> 0 < slotCount (Beats (applyDefaults (fretRequest ''bossa-nova'' [''0''] [5]))) eighthTicks
   \<and> (\<exists>evs v. eventsOf (GenerateMidi (fretRequest ''bossa-nova'' [''0''] [5])) = Some evs
                \<and> NoteOn 0 0 (5 - 12) v \<in> set evs)"
proof -
  define req where "req = fretRequest ''bossa-nova'' [''0''] [5]"
  have h1: "Pattern req \<in> set bassPatterns" by (simp add: req_def fretRequest_def bassPatterns_def)
  have h3: "0 < length (Chords req)" by (simp add: req_def fretRequest_def)
  have h4: "[5] = chordNotes (applyDefaults req) 0 (Chords req ! 0)"
    unfolding req_def by code_simp
  have h5: "hd [5 :: byte] < 12" by simp
  have s: "0 < slotCount (Beats (applyDefaults req)) eighthTicks"
    unfolding req_def by code_simp
  then have h6: "Pattern req = ''bossa-nova'' \<longrightarrow> 0 < slotCount (Beats (applyDefaults req)) eighthTicks"
    by simp
  have n: "chordNotes (applyDefaults req) 0 ''C'' = [5]"
    using h4 by (simp add: req_def fretRequest_def)
  from bass_note_wraps_below_12 [OF h1 refl h3 h4 h5 h6] h1 n s show ?thesis
    by (simp add: req_def fretRequest_def)
qed

text \<open>
  The claim as stated fails in two ways. The first note need not be the lowest:
  \<open>fretsToMidi\<close> sorts the pitches as integers and reduces them to bytes afterwards, so the
  open strings 100 and 261 give the note set 100, 5, whose lowest note 5 is below 12,
  while the bass pitch of \<open>boom-chick\<close> is 100 - 12 = 88 and no pitch of the track is above
  127. And \<open>bossa-nova\<close> may emit no bass note at all: for 134217728 beats per chord the
  32-bit tick count 480 * 134217728 wraps to 0, the loop over the eighths does not run,
  and the track of a chord whose only note is 5 has no note event.
\<close>

theorem bass_note_not_emitted_counterexample:
  "chordNotes (applyDefaults \<lparr>Chords = [''C''], Tempo = 120, Pattern = ''boom-chick'', Octave = 4,
                               Beats = 4, Frets = [[''0'', ''0'']], OpenMidi = [100, 261]\<rparr>) 0 ''C''
     = [100, 5]
   \<and> Min (set [100, 5 :: byte]) = 5 \<and> (5 :: byte) < 12
   \<and> eventsOf (GenerateMidi \<lparr>Chords = [''C''], Tempo = 120, Pattern = ''boom-chick'', Octave = 4,
                               Beats = 4, Frets = [[''0'', ''0'']], OpenMidi = [100, 261]\<rparr>)
       = Some [Meta 0 0x51 [0x07, 0xA1, 0x20],
               NoteOn 0 0 88 100, NoteOff 480 0 88 0,
               NoteOn 0 0 5 90, NoteOff 480 0 5 0,
               NoteOn 0 0 5 90, NoteOff 480 0 5 0,
               NoteOn 0 0 5 90, NoteOff 480 0 5 0,
               Meta 0 0x2F []]
   \<and> chordNotes (applyDefaults \<lparr>Chords = [''C''], Tempo = 120, Pattern = ''bossa-nova'', Octave = 4,
                               Beats = 134217728, Frets = [[''0'']], OpenMidi = [5]\<rparr>) 0 ''C''
     = [5]
   \<and> chordTicks 134217728 = 0
   \<and> eventsOf (GenerateMidi \<lparr>Chords = [''C''], Tempo = 120, Pattern = ''bossa-nova'', Octave = 4,
                               Beats = 134217728, Frets = [[''0'']], OpenMidi = [5]\<rparr>)
       = Some [Meta 0 0x51 [0x07, 0xA1, 0x20], Meta 0 0x2F []]"
  by code_simp

section \<open>Pitch range\<close>

text \<open>
  C1. Every pitch byte of a note-on or note-off event in the file is at most 127, and
  the fret-derived pitch 120 + 10 = 130 is excluded before emission. The code does not
  do this: for the one-string request with open-string value 120 and fret 10,
  \<open>fretsToMidi\<close> keeps 130 and the file carries a note-on and a note-off for pitch 130.
\<close>

theorem fret_pitch_130_is_emitted:
  "fretsToMidi [''10''] [120] = [130]
   \<and> eventsOf (GenerateMidi (fretRequest ''whole'' [''10''] [120]))
       = Some [Meta 0 0x51 [0x07, 0xA1, 0x20],
               NoteOn 0 0 130 100, NoteOff 1920 0 130 0, Meta 0 0x2F []]
   \<and> (127 :: byte) < 130"
  by code_simp

section \<open>Faults\<close>

text \<open>
  C2. Track construction never faults on an accepted request, because a note index
  beyond the note set is clamped. The code does not clamp in two of its cases: with a
  fret-mode note set of one note (or of two, for the first), \<open>stairway-arpeggio\<close> reads
  \<open>notes[1]\<close> and \<open>notes[2]\<close>, and \<open>sweet-home-alabama\<close> reads \<open>notes[len(notes)-2]\<close>, and
  the request faults, while \<open>hotel-california\<close>, which clamps, answers the same request.
\<close>

theorem unclamped_index_faults:
  "chordNotes (applyDefaults (fretRequest ''stairway-arpeggio'' [''0''] [60])) 0 ''C'' = [60]
   \<and> GenerateMidi (fretRequest ''stairway-arpeggio'' [''0''] [60]) = Inl IndexOutOfRange
   \<and> GenerateMidi (fretRequest ''stairway-arpeggio'' [''0'', ''2''] [60, 62]) = Inl IndexOutOfRange
   \<and> GenerateMidi (fretRequest ''sweet-home-alabama'' [''0''] [60]) = Inl IndexOutOfRange
   \<and> isOK (GenerateMidi (fretRequest ''hotel-california'' [''0''] [60]))"
  by code_simp

text \<open>
  A delta time of \<open>2^28\<close> ticks or more also faults, in \<open>varLen\<close>: one chord of 600000
  beats is a note-off delta of 288000000 ticks.
\<close>

lemma whole_note_of_600000_beats_faults:
  "GenerateMidi (plainRequest [''C''] ''whole'' 600000) = Inl IndexOutOfRange"
proof -
  have t: "chordTicks 600000 = 288000000"
    by (simp add: chordTicks_def beatTicks_def ticksPerQuarter_def)
  have v: "varLen 288000000 = Inl IndexOutOfRange"
    by (rule varLen_5) simp
  have n: "chordToMidi ''C'' 4 = [60, 64, 67]"
    by code_simp
  show ?thesis
    by (simp add: GenerateMidi_def buildMidi_def buildTrack_def applyDefaults_def plainRequest_def
        patternBytes_table case_default_def chordNotes_no_frets n t v tempoEvent_120 emit_simps)
qed

section \<open>Slot counts\<close>

text \<open>
  C4. The number of slots emitted for one chord is the chord's duration, beats times 480
  ticks, divided by the subdivision, so that the events of a chord span its duration for
  every value of beats. The code does not do this in the cases whose loop bound is a
  constant: for two beats per chord (960 ticks, four eighth notes) \<open>creep-arpeggio\<close>
  still emits eight eighth-note slots, 1920 ticks, the same bytes as for four beats,
  while \<open>pop-stabs\<close>, whose loop bound is computed from the chord's ticks, spans 960.
\<close>

theorem creep_arpeggio_ignores_beats:
  "unat (chordTicks 2) = 960 \<and> slotCount 2 eighthTicks = 4
   \<and> map_option (length \<circ> filter isOn)
        (eventsOf (GenerateMidi (plainRequest [''C''] ''creep-arpeggio'' 2))) = Some 8
   \<and> map_option ticksOf
        (eventsOf (GenerateMidi (plainRequest [''C''] ''creep-arpeggio'' 2))) = Some 1920
   \<and> GenerateMidi (plainRequest [''C''] ''creep-arpeggio'' 2)
       = GenerateMidi (plainRequest [''C''] ''creep-arpeggio'' 4)
   \<and> map_option ticksOf
        (eventsOf (GenerateMidi (plainRequest [''C''] ''pop-stabs'' 2))) = Some 960"
  by code_simp

text \<open>
  \<open>bossa-nova\<close> computes its loop bound from the chord's ticks, and still a chord of four
  beats spans nine eighth notes: on the first eighth the bass note and the chord are
  appended one after the other, an eighth note each.
\<close>

lemma bossa_nova_bar_spans_nine_eighths:
  "unat (chordTicks 4) = 1920
   \<and> map_option ticksOf (eventsOf (GenerateMidi (plainRequest [''C''] ''bossa-nova'' 4))) = Some 2160"
  by code_simp

section \<open>Note-on and note-off pairing\<close>

text \<open>
  The idioms emit balanced events, and sequencing, loops and index reads preserve this.
\<close>

lemma balanced_Nil: "balanced []"
  by (simp add: balanced_def)

lemma balanced_append: "balanced a \<Longrightarrow> balanced b \<Longrightarrow> balanced (a @ b)"
  by (simp add: balanced_def)

lemma balanced_pluck: "balanced (pluckEvents n vel dur)"
  by (simp add: balanced_def pluckEvents_def)

lemma balanced_rest: "balanced (restEvents dur)"
  by (simp add: balanced_def restEvents_def)

lemma count_on_map:
  "length (filter (isNoteOn 0 p) (map (\<lambda>n. NoteOn 0 0 n vel) ns)) = length (filter (\<lambda>n. n = p) ns)"
  by (induction ns) simp_all

lemma count_off_map:
  "length (filter (isNoteOff 0 p) (map (\<lambda>n. NoteOn 0 0 n vel) ns)) = 0"
  by (induction ns) simp_all

lemma count_on_enum:
  "length (filter (isNoteOn 0 p)
     (map (\<lambda>(j, n). NoteOff (if j = 0 then dur else 0) 0 n 0) (enumerate k ns))) = 0"
  by (induction ns arbitrary: k) simp_all

lemma count_off_enum:
  "length (filter (isNoteOff 0 p)
     (map (\<lambda>(j, n). NoteOff (if j = 0 then dur else 0) 0 n 0) (enumerate k ns)))
   = length (filter (\<lambda>n. n = p) ns)"
  by (induction ns arbitrary: k) simp_all

lemma balanced_strike: "balanced (strikeEvents vel dur ns)"
  unfolding balanced_def strikeEvents_def onEvents_def offEvents_def filter_append length_append
    count_on_map count_off_map count_on_enum count_off_enum
  by simp

lemma varLen_returns: "varLen d = Inr bs \<Longrightarrow> d < 0x10000000"
  using varLen_5 [of d] by (cases "d < 0x10000000") (auto simp: word_less_nat_alt)

lemma paired_Inl: "paired (Inl e)"
  by (simp add: paired_def)

lemma paired_I: "emits m evs \<Longrightarrow> balanced evs \<Longrightarrow> paired m"
  by (auto simp: paired_def split: sum.splits)

lemma paired_Nil: "paired (Inr [])"
  using paired_I [OF emits_Nil balanced_Nil] .

lemma paired_appendE:
  assumes "paired a" and "paired b"
  shows "paired (appendE a b)"
proof (cases a)
  case (Inl e)
  then show ?thesis by (simp add: appendE_def bindE_def paired_Inl)
next
  case a: (Inr as)
  show ?thesis
  proof (cases b)
    case (Inl e)
    with a show ?thesis by (simp add: appendE_def bindE_def paired_Inl)
  next
    case b: (Inr bs)
    from assms a b obtain ea eb where "emits a ea" "balanced ea" "emits b eb" "balanced eb"
      by (auto simp: paired_def)
    then show ?thesis
      by (intro paired_I [of _ "ea @ eb"] emits_appendE balanced_append)
  qed
qed

lemma paired_seqE: "(\<And>m. m \<in> set ms \<Longrightarrow> paired m) \<Longrightarrow> paired (seqE ms)"
  by (induction ms) (simp_all add: paired_Nil paired_appendE)

lemma paired_forE: "(\<And>i. i < n \<Longrightarrow> paired (body i)) \<Longrightarrow> paired (forE n body)"
  unfolding forE_def by (rule paired_seqE) auto

lemma paired_bindE: "(\<And>x. m = Inr x \<Longrightarrow> paired (f x)) \<Longrightarrow> paired (bindE m f)"
  by (cases m) (simp_all add: bindE_def paired_Inl)

lemma noteOffEvent_returns: "noteOffEvent d ch n = Inr bs \<Longrightarrow> d < 0x10000000"
  by (cases "varLen d") (auto simp: noteOffEvent_def bindE_def dest: varLen_returns)

lemma paired_pluck: "paired (pluck n vel dur)"
proof (cases "dur < 0x10000000")
  case True
  from paired_I [OF emits_pluck [OF True] balanced_pluck] show ?thesis .
next
  case False
  then have "\<exists>e. noteOffEvent dur 0 n = Inl e"
    using noteOffEvent_returns [of dur 0 n] by (cases "noteOffEvent dur 0 n") auto
  then have "\<exists>e. pluck n vel dur = Inl e"
    by (auto simp: pluck_def appendE_def bindE_def split: sum.splits)
  then show ?thesis by (auto simp: paired_Inl)
qed

lemma paired_silence: "paired (silence dur)"
proof (cases "dur < 0x10000000")
  case True
  from paired_I [OF emits_silence [OF True] balanced_rest] show ?thesis .
next
  case False
  then have "\<exists>e. noteOffEvent dur 0 0 = Inl e"
    using noteOffEvent_returns [of dur 0 0] by (cases "noteOffEvent dur 0 0") auto
  then have "\<exists>e. silence dur = Inl e"
    by (auto simp: silence_def appendE_def bindE_def split: sum.splits)
  then show ?thesis by (auto simp: paired_Inl)
qed

lemma strike_Nil: "strike vel dur [] = Inr []"
  by (simp add: strike_def notesOn_def notesOff_def appendE_def bindE_def)

lemma paired_strike: "paired (strike vel dur notes)"
proof (cases "dur < 0x10000000")
  case True
  from paired_I [OF emits_strike [OF True] balanced_strike] show ?thesis .
next
  case False
  show ?thesis
  proof (cases "notes")
    case Nil
    then show ?thesis by (simp add: strike_Nil paired_Nil)
  next
    case (Cons n ns)
    from False have "\<exists>e. noteOffEvent dur 0 n = Inl e"
      using noteOffEvent_returns [of dur 0 n] by (cases "noteOffEvent dur 0 n") auto
    then have "\<exists>e. notesOff dur notes = Inl e"
      by (auto simp: Cons notesOff_def appendE_def bindE_def split: sum.splits)
    then have "\<exists>e. strike vel dur notes = Inl e"
      by (auto simp: strike_def appendE_def bindE_def split: sum.splits)
    then show ?thesis by (auto simp: paired_Inl)
  qed
qed


lemma paired_if: "(c \<Longrightarrow> paired a) \<Longrightarrow> (\<not> c \<Longrightarrow> paired b) \<Longrightarrow> paired (if c then a else b)"
  by simp

lemmas paired_rules =
  paired_appendE paired_seqE paired_forE paired_bindE paired_pluck paired_strike
  paired_silence paired_Nil paired_Inl

lemma paired_two_notes:
  "paired (seqE [noteOnEvent 0 0 low v, noteOnEvent 0 0 high w,
                 noteOffEvent eighthTicks 0 low, noteOffEvent 0 0 high])"
proof -
  have d: "eighthTicks < 0x10000000" by (simp add: ticks_consts)
  have "emits (seqE [noteOnEvent 0 0 low v, noteOnEvent 0 0 high w,
                 noteOffEvent eighthTicks 0 low, noteOffEvent 0 0 high])
          (concat [[NoteOn 0 0 low v], [NoteOn 0 0 high w],
                   [NoteOff eighthTicks 0 low 0], [NoteOff 0 0 high 0]])"
    by (rule emits_seqE) (simp add: emits_noteOnEvent emits_noteOffEvent d)
  moreover have "balanced (concat [[NoteOn 0 0 low v], [NoteOn 0 0 high w],
                   [NoteOff eighthTicks 0 low 0], [NoteOff 0 0 high 0]])"
    by (simp add: balanced_def)
  ultimately show ?thesis by (rule paired_I)
qed

lemma paired_cases:
  "paired (case_default beats ns)"
  "paired (case_half beats ns)"
  "paired (case_quarter beats ns)"
  "paired (case_arpeggio_up beats ns)"
  "paired (case_arpeggio_down beats ns)"
  "paired (case_boom_chick beats ns)"
  "paired (case_pop_strum beats ns)"
  "paired (case_travis_picking beats ns)"
  "paired (case_alberti_bass beats ns)"
  "paired (case_triplet_arpeggio beats ns)"
  "paired (case_pop_stabs beats ns)"
  "paired (case_bossa_nova beats ns)"
  "paired (case_reggae_skank beats ns)"
  "paired (case_funk_16th beats ns)"
  "paired (case_jazz_swing beats ns)"
  "paired (case_rock_8th beats ns)"
  "paired (case_stand_by_me beats ns)"
  "paired (case_creep_arpeggio beats ns)"
  "paired (case_twist_and_shout beats ns)"
  "paired (case_blues_shuffle beats ns)"
  "paired (case_sweet_home_alabama beats ns)"
  "paired (case_stairway_arpeggio beats ns)"
  "paired (case_hotel_california beats ns)"
  "paired (case_wonderwall_strum beats ns)"
  "paired (case_palm_mute_8th beats ns)"
  "paired (case_off_beat_8th beats ns)"
  "paired (case_country_alt_bass beats ns)"
  "paired (case_pima_arpeggio beats ns)"
  "paired (case_four_on_the_floor beats ns)"
  unfolding case_defs Let_def
  by (auto intro!: paired_rules split: prod.splits)

lemma paired_blackbird_pick: "paired (case_blackbird_pick beats ns)"
  unfolding case_blackbird_pick_def
  by (intro paired_forE paired_if paired_bindE paired_two_notes paired_pluck paired_Inl)


lemma paired_patternBytes:
  assumes "p \<noteq> ''let-it-be''"
  shows "paired (patternBytes p beats ns)"
proof (cases "map_of patternTable p")
  case None
  then show ?thesis by (simp add: patternBytes_def paired_cases)
next
  case (Some c)
  from map_of_SomeD [OF this] assms have "paired (c beats ns)"
    unfolding patternTable_def by (auto simp: paired_cases paired_blackbird_pick)
  with Some show ?thesis by (simp add: patternBytes_def)
qed

lemma paired_tempoEvent: "paired (tempoEvent bpm)"
proof (cases "bpm = 0")
  case True
  then show ?thesis by (simp add: tempoEvent_def paired_Inl)
next
  case False
  from emits_tempoEvent [OF False] show ?thesis
    by (rule paired_I) (simp add: balanced_def)
qed

lemma paired_endOfTrack: "paired (Inr endOfTrack)"
  using emits_endOfTrack by (rule paired_I) (simp add: balanced_def)

lemma paired_buildTrack:
  assumes "Pattern req \<noteq> ''let-it-be''"
  shows "paired (buildTrack req)"
  unfolding buildTrack_appendE
  by (auto intro!: paired_rules paired_tempoEvent paired_endOfTrack paired_patternBytes assms)

text \<open>
  In every case of \<open>buildTrack\<close> other than \<open>let-it-be\<close> the note-ons and note-offs are
  appended in matching groups, so that whenever the request is answered, the events of
  the file are balanced.
\<close>

lemma note_events_balanced_outside_let_it_be:
  assumes "Pattern req \<noteq> ''let-it-be''" and "GenerateMidi req = Inr out"
  shows "\<exists>evs. eventsOf (GenerateMidi req) = Some evs \<and> balanced evs"
proof -
  let ?r = "applyDefaults req"
  from assms(1) have "Pattern ?r \<noteq> ''let-it-be''" by (simp add: applyDefaults_def)
  from paired_buildTrack [OF this] have p: "paired (buildTrack ?r)" .
  from assms(2) obtain trk where "buildTrack ?r = Inr trk"
    by (cases "buildTrack ?r") (auto simp: GenerateMidi_def buildMidi_def bindE_def)
  with p obtain evs where "emits (buildTrack ?r) evs" "balanced evs"
    by (auto simp: paired_def)
  with eventsOf_emits [of ?r evs] show ?thesis by (auto simp: GenerateMidi_def)
qed

text \<open>
  C6. Every note-on for a pitch on a channel is matched by exactly one note-off for that
  pitch and channel before the end of the track, with no surplus note-off. The code does
  not do this in \<open>let-it-be\<close>: the note-off of the lowered root is appended on every
  beat, the note-on only on the even beats. For the chord C over two beats the track has
  one note-on and two note-offs for pitch 48.
\<close>

theorem let_it_be_surplus_note_off:
  "map_option (\<lambda>evs. (length (filter (isNoteOn 0 48) evs), length (filter (isNoteOff 0 48) evs)))
     (eventsOf (GenerateMidi (plainRequest [''C''] ''let-it-be'' 2))) = Some (1, 2)"
  by code_simp

end
